theory Spec2Isabelle
  imports
    Main
    "HOL-Library.Sublist"
    "HOL-Library.Multiset"
    "HOL-Library.Product_Lexorder"
    "HOL-Library.List_Lexorder"
    "HOL-Library.Char_ord"
begin

unbundle bit_operations_syntax

section \<open>Python values used by \<^verbatim>\<open>download_ribs.py\<close>\<close>

text \<open>
  The script works on Python's unbounded integers (type \<^typ>\<open>nat\<close> here, every integer
  in it is non-negative) and on ASCII strings (type \<^typ>\<open>string\<close>). Exceptions are
  values of \<open>py_error\<close>; a function that can raise returns \<open>py_error + 'a\<close>.
\<close>

datatype py_error = ValueError | IndexError | OverflowError

text \<open>\<^verbatim>\<open>str(n)\<close> for a non-negative integer: decimal digits, no sign, no leading zero.\<close>

definition digit_char :: "nat \<Rightarrow> char" where
  "digit_char d = ''0123456789'' ! d"

fun str_nat :: "nat \<Rightarrow> string" where
  "str_nat n = (if n < 10 then [digit_char n] else str_nat (n div 10) @ [digit_char (n mod 10)])"

declare str_nat.simps [simp del]

text \<open>\<^verbatim>\<open>sep.join(xs)\<close> for a one-character separator.\<close>

fun join :: "char \<Rightarrow> string list \<Rightarrow> string" where
  "join c [] = []"
| "join c [x] = x"
| "join c (x # y # ys) = x @ c # join c (y # ys)"

text \<open>
  \<^verbatim>\<open>s.split(c)\<close> for a one-character separator: the pieces between the occurrences
  of \<open>c\<close>; the result is never empty (\<^verbatim>\<open>''.split('.') == ['']\<close>).
\<close>

fun split :: "char \<Rightarrow> string \<Rightarrow> string list" where
  "split c [] = [[]]"
| "split c (x # xs) =
     (if x = c then [] # split c xs
      else (case split c xs of [] \<Rightarrow> [[x]] | p # ps \<Rightarrow> (x # p) # ps))"

text \<open>\<^verbatim>\<open>xs[i]\<close> for \<open>i \<ge> 0\<close>: IndexError out of range.\<close>

definition index :: "'a list \<Rightarrow> nat \<Rightarrow> py_error + 'a" where
  "index xs i = (if i < length xs then Inr (xs ! i) else Inl IndexError)"

text \<open>
  \<^verbatim>\<open>range(start, stop, step)\<close> for a positive step, as a list:
  \<open>start, start + step, \<dots>\<close> below \<open>stop\<close>.
\<close>

definition range3 :: "nat \<Rightarrow> nat \<Rightarrow> nat \<Rightarrow> nat list" where
  "range3 start stop step =
     map (\<lambda>i. start + i * step) [0 ..< (stop - start + step - 1) div step]"

text \<open>Running a list of fallible computations: the first exception wins.\<close>

fun collect :: "('e + 'a) list \<Rightarrow> 'e + 'a list" where
  "collect [] = Inr []"
| "collect (r # rs) =
     (case r of Inl e \<Rightarrow> Inl e
      | Inr x \<Rightarrow> (case collect rs of Inl e \<Rightarrow> Inl e | Inr xs \<Rightarrow> Inr (x # xs)))"

section \<open>The standard library's \<^verbatim>\<open>ipaddress\<close> module\<close>

text \<open>
  A CIDR string such as \<^verbatim>\<open>10.0.0.5/8\<close> denotes an address family, the integer of the
  address part and a prefix length; \<open>cidr\<close> is that denotation (what
  \<^verbatim>\<open>ip_network\<close> also accepts as the pair \<^verbatim>\<open>(address, prefixlen)\<close>). The
  text-to-integer parsing of the library is not part of the model: the model starts at
  the range checks and the host-bit check of the network constructors.
\<close>

datatype cidr = Cidr4 nat nat | Cidr6 nat nat

datatype network =
    IPv4Network (network_address: nat) (prefixlen: nat)
  | IPv6Network (network_address: nat) (prefixlen: nat)

fun version :: "network \<Rightarrow> nat" where
  "version (IPv4Network a p) = 4"
| "version (IPv6Network a p) = 6"

fun max_prefixlen :: "network \<Rightarrow> nat" where
  "max_prefixlen (IPv4Network a p) = 32"
| "max_prefixlen (IPv6Network a p) = 128"

text \<open>\<^verbatim>\<open>_ALL_ONES = 2**bits - 1\<close>; the netmask of a prefix length is
  \<^verbatim>\<open>_ALL_ONES ^ (_ALL_ONES >> prefixlen)\<close>, the hostmask is
  \<^verbatim>\<open>netmask ^ _ALL_ONES\<close>.\<close>

definition ALL_ONES :: "nat \<Rightarrow> nat" where
  "ALL_ONES bits = 2 ^ bits - 1"

definition netmask_of :: "nat \<Rightarrow> nat \<Rightarrow> nat" where
  "netmask_of bits p = ALL_ONES bits XOR drop_bit p (ALL_ONES bits)"

definition netmask :: "network \<Rightarrow> nat" where
  "netmask net = netmask_of (max_prefixlen net) (prefixlen net)"

definition hostmask :: "network \<Rightarrow> nat" where
  "hostmask net = netmask net XOR ALL_ONES (max_prefixlen net)"

definition broadcast_address :: "network \<Rightarrow> nat" where
  "broadcast_address net = network_address net OR hostmask net"

text \<open>
  \<^verbatim>\<open>ip_network(address, strict)\<close>: ValueError for an address or a prefix length out
  of range; when the address has host bits set, ValueError under \<^verbatim>\<open>strict=True\<close>,
  and the address masked with the netmask under \<^verbatim>\<open>strict=False\<close>.
\<close>

definition make_network ::
  "(nat \<Rightarrow> nat \<Rightarrow> network) \<Rightarrow> nat \<Rightarrow> bool \<Rightarrow> nat \<Rightarrow> nat \<Rightarrow> py_error + network" where
  "make_network mk bits strict a p =
     (if 2 ^ bits \<le> a \<or> bits < p then Inl ValueError
      else if a AND netmask_of bits p \<noteq> a then
        (if strict then Inl ValueError else Inr (mk (a AND netmask_of bits p) p))
      else Inr (mk a p))"

fun ip_network :: "cidr \<Rightarrow> bool \<Rightarrow> py_error + network" where
  "ip_network (Cidr4 a p) strict = make_network IPv4Network 32 strict a p"
| "ip_network (Cidr6 a p) strict = make_network IPv6Network 128 strict a p"

text \<open>
  \<^verbatim>\<open>net.subnets(new_prefix=n)\<close> of an IPv4 network: a /32 yields itself; otherwise
  the new prefix must not be shorter than the network's nor longer than 32, and the
  subnets start at every \<open>step\<close>-th address from the network address to the broadcast
  address, each built by the (strict) constructor.
\<close>

definition subnets :: "network \<Rightarrow> nat \<Rightarrow> py_error + network list" where
  "subnets net new_prefix =
     (if prefixlen net = max_prefixlen net then Inr [net]
      else if new_prefix < prefixlen net then Inl ValueError
      else if max_prefixlen net < new_prefix then Inl ValueError
      else
        (let start = network_address net;
             stop = broadcast_address net + 1;
             step = drop_bit (new_prefix - prefixlen net) (hostmask net + 1)
         in collect (map (\<lambda>new_addr. ip_network (Cidr4 new_addr new_prefix) True)
                      (range3 start stop step))))"

text \<open>
  \<^verbatim>\<open>net.hosts()\<close> of an IPv4 network: the addresses strictly between the network and
  the broadcast address; for a /31 both addresses of the network; for a /32 the single
  address.
\<close>

definition hosts :: "network \<Rightarrow> nat list" where
  "hosts net =
     (if prefixlen net = max_prefixlen net - 1
        then [network_address net ..< broadcast_address net + 1]
      else if prefixlen net = max_prefixlen net
        then [network_address net]
      else [network_address net + 1 ..< broadcast_address net])"

text \<open>
  \<^verbatim>\<open>str(addr)\<close> and \<^verbatim>\<open>addr.exploded\<close> of an IPv4 address: the four bytes of
  \<^verbatim>\<open>to_bytes(4, 'big')\<close> in decimal, joined by dots.
\<close>

definition to_bytes4 :: "nat \<Rightarrow> nat list" where
  "to_bytes4 a = [a div 2 ^ 24 mod 256, a div 2 ^ 16 mod 256, a div 2 ^ 8 mod 256, a mod 256]"

definition str_ipv4 :: "nat \<Rightarrow> string" where
  "str_ipv4 a = join (CHR ''.'') (map str_nat (to_bytes4 a))"

section \<open>\<^verbatim>\<open>extract_even_ipv4_networks\<close>\<close>

text \<open>
  The generator is modelled by the list of the strings it yields, or the exception it
  raises. \<open>octet_token k s\<close> is the f-string of the first \<open>k\<close> dot-separated fields of
  \<open>s\<close>, each followed by a dot.
\<close>

fun octet_token :: "nat \<Rightarrow> string \<Rightarrow> py_error + string" where
  "octet_token k s =
     (let octets = split (CHR ''.'') s
      in case collect (map (index octets) [0 ..< k]) of
           Inl e \<Rightarrow> Inl e
         | Inr os \<Rightarrow> Inr (concat (map (\<lambda>x. x @ ''.'') os)))"

definition subnet_tokens :: "network \<Rightarrow> nat \<Rightarrow> nat \<Rightarrow> py_error + string list" where
  "subnet_tokens net new_prefix k =
     (case subnets net new_prefix of
        Inl e \<Rightarrow> Inl e
      | Inr subs \<Rightarrow> collect (map (\<lambda>subnet. octet_token k (str_ipv4 (network_address subnet))) subs))"

definition extract_even_ipv4_networks :: "cidr \<Rightarrow> py_error + string list" where
  "extract_even_ipv4_networks network =
     (case ip_network network False of
        Inl e \<Rightarrow> Inl e
      | Inr net \<Rightarrow>
          if \<not> version net = 4 then Inr []
          else
            (let prefix = prefixlen net in
             if prefix \<le> 8 then subnet_tokens net 8 1
             else if prefix \<le> 16 then subnet_tokens net 16 2
             else if prefix \<le> 24 then subnet_tokens net 24 3
             else Inr ([str_ipv4 (network_address net)]
                       @ map str_ipv4 (hosts net)
                       @ [str_ipv4 (broadcast_address net)])))"

text \<open>
  \<^verbatim>\<open>addr in net\<close> for an address of the network's family:
  \<^verbatim>\<open>addr & netmask == network_address\<close>.
\<close>

definition contains :: "network \<Rightarrow> nat \<Rightarrow> bool" where
  "contains net x \<longleftrightarrow> x AND netmask net = network_address net"

text \<open>
  For the proofs: the first \<open>k\<close> decimal octets of an address, each followed by a dot
  (what \<open>octet_token k\<close> computes from the address's string).
\<close>

definition octet_prefix :: "nat \<Rightarrow> nat \<Rightarrow> string" where
  "octet_prefix k a = concat (map (\<lambda>x. x @ ''.'') (take k (map str_nat (to_bytes4 a))))"

section \<open>\<^verbatim>\<open>ip_sort_key\<close> and the library \<^verbatim>\<open>packaging.version\<close>\<close>

text \<open>\<^verbatim>\<open>s.partition(c)\<close>: the text before the first \<open>c\<close>, the separator, the text after it;
  \<open>(s, '', '')\<close> when \<open>c\<close> does not occur.\<close>

definition str_partition :: "char \<Rightarrow> string \<Rightarrow> string \<times> string \<times> string" where
  "str_partition c s =
     (case dropWhile (\<lambda>x. x \<noteq> c) s of
        [] \<Rightarrow> (s, [], [])
      | _ # rest \<Rightarrow> (takeWhile (\<lambda>x. x \<noteq> c) s, [c], rest))"

text \<open>\<^verbatim>\<open>int(s)\<close> for a string of decimal digits.\<close>

definition is_digit :: "char \<Rightarrow> bool" where
  "is_digit c \<longleftrightarrow> c \<in> set ''0123456789''"

definition digit_val :: "char \<Rightarrow> nat" where
  "digit_val c = of_char c - 48"

definition int_of_digits :: "string \<Rightarrow> nat" where
  "int_of_digits s = foldl (\<lambda>n c. 10 * n + digit_val c) 0 s"

text \<open>
  \<^verbatim>\<open>Version(s)\<close> parses a PEP 440 version or raises \<^verbatim>\<open>InvalidVersion\<close>
  (\<open>None\<close> here, the only exception of the constructor on a string). The model covers
  the release segment \<^verbatim>\<open>[0-9]+(\.[0-9]+)*\<close>: dot-separated non-empty groups of
  digits. The other parts of the grammar (a leading \<^verbatim>\<open>v\<close>, epoch, pre-, post- and
  dev-release, local version, surrounding white space) need a letter, \<^verbatim>\<open>!\<close>,
  \<^verbatim>\<open>+\<close>, \<^verbatim>\<open>-\<close>, \<^verbatim>\<open>_\<close> or white space, and no version contains a colon. So on
  the address part of a RIB prefix, which is made of digits and dots (IPv4) or contains a
  colon (IPv6), the model and the library agree; \<open>rib_prefix_text\<close> is that domain.
\<close>

datatype py_version = Release (release: "nat list")

definition Version :: "string \<Rightarrow> py_version option" where
  "Version s =
     (let groups = split (CHR ''.'') s
      in if list_all (\<lambda>g. g \<noteq> [] \<and> list_all is_digit g) groups
         then Some (Release (map int_of_digits groups))
         else None)"

definition rib_prefix_text :: "string \<Rightarrow> bool" where
  "rib_prefix_text ip =
     (let addr = fst (str_partition (CHR ''/'') ip)
      in list_all (\<lambda>c. is_digit c \<or> c = CHR ''.'') addr \<or> CHR '':'' \<in> set addr)"

text \<open>
  Versions compare by their \<^verbatim>\<open>_key\<close>. For a version with a release segment only, the
  other fields of the key are the same constants for every version, so the comparison is
  that of the release tuples with their trailing zeros dropped
  (\<^verbatim>\<open>reversed(dropwhile(lambda x: x == 0, reversed(release)))\<close>); Python compares tuples
  lexicographically, as the order on lists here does.
\<close>

definition cmpkey :: "py_version \<Rightarrow> nat list" where
  "cmpkey v = rev (dropWhile (\<lambda>x. x = 0) (rev (release v)))"

text \<open>
  The sort key is the pair \<open>(0, Version)\<close> or \<open>(1, str)\<close>. Pairs compare by the tag
  first, so a version is only ever compared with a version and a string with a string:
  the model's key has one slot for each, the unused one empty. Strings compare by code
  point, as the order on \<^typ>\<open>string\<close> does.
\<close>

type_synonym sort_key = "nat \<times> nat list \<times> string"

definition ip_sort_key :: "string \<Rightarrow> sort_key" where
  "ip_sort_key ip =
     (case Version (fst (str_partition (CHR ''/'') ip)) of
        Some v \<Rightarrow> (0, cmpkey v, [])
      | None \<Rightarrow> (1, [], ip))"

text \<open>\<^verbatim>\<open>sorted(prefixes, key=ip_sort_key)\<close>: a stable sort by the key.\<close>

definition sorted_prefixes :: "string list \<Rightarrow> string list" where
  "sorted_prefixes pfxs = sort_key ip_sort_key pfxs"

text \<open>For the statements: whether the address part parses, and its release tuple.\<close>

definition is_version :: "string \<Rightarrow> bool" where
  "is_version ip \<longleftrightarrow> Version (fst (str_partition (CHR ''/'') ip)) \<noteq> None"

definition release_of :: "string \<Rightarrow> nat list" where
  "release_of ip =
     (case Version (fst (str_partition (CHR ''/'') ip)) of Some v \<Rightarrow> release v | None \<Rightarrow> [])"

section \<open>\<^verbatim>\<open>parse_rib_to_dict\<close>\<close>

text \<open>
  \<^verbatim>\<open>mrtx.parse_mrt_file\<close> returns a dictionary from prefix string to origin, an
  integer or (for an AS_SET) a set of integers. The model takes that dictionary as its
  input, as the list \<open>pfxs\<close> of its items; a Python set is the list of its elements in
  iteration order. A well-formed input has distinct keys and distinct set elements.
\<close>

datatype origin = Asn nat | AsSet "nat list"

fun wf_origin :: "origin \<Rightarrow> bool" where
  "wf_origin (Asn asn) = True"
| "wf_origin (AsSet asns) = distinct asns"

definition wf_prefixes :: "(string \<times> origin) list \<Rightarrow> bool" where
  "wf_prefixes pfxs \<longleftrightarrow> distinct (map fst pfxs) \<and> list_all (wf_origin \<circ> snd) pfxs"

text \<open>\<^verbatim>\<open>asn_dict[asn].append(prefix)\<close> on a \<^verbatim>\<open>defaultdict(list)\<close>.\<close>

definition append_prefix ::
  "nat \<Rightarrow> string \<Rightarrow> (nat \<rightharpoonup> string list) \<Rightarrow> (nat \<rightharpoonup> string list)" where
  "append_prefix asn pfx asn_dict =
     asn_dict(asn \<mapsto> (case asn_dict asn of None \<Rightarrow> [] | Some ps \<Rightarrow> ps) @ [pfx])"

text \<open>The body of the loop over \<^verbatim>\<open>prefixes.items()\<close>.\<close>

fun add_item :: "(nat \<rightharpoonup> string list) \<Rightarrow> string \<times> origin \<Rightarrow> (nat \<rightharpoonup> string list)" where
  "add_item asn_dict (pfx, AsSet asns) =
     foldl (\<lambda>d set_asn. append_prefix set_asn pfx d) asn_dict asns"
| "add_item asn_dict (pfx, Asn asn) = append_prefix asn pfx asn_dict"

definition build_asn_dict :: "(string \<times> origin) list \<Rightarrow> (nat \<rightharpoonup> string list)" where
  "build_asn_dict pfxs = foldl add_item Map.empty pfxs"

definition parse_rib_to_dict :: "(string \<times> origin) list \<Rightarrow> (nat \<rightharpoonup> string list)" where
  "parse_rib_to_dict pfxs =
     (\<lambda>asn. map_option sorted_prefixes (build_asn_dict pfxs asn))"

text \<open>For the statements: \<^verbatim>\<open>asn_dict.get(asn, [])\<close>, and the ASNs an origin stands for.\<close>

definition entries :: "(nat \<rightharpoonup> string list) \<Rightarrow> nat \<Rightarrow> string list" where
  "entries asn_dict asn = (case asn_dict asn of None \<Rightarrow> [] | Some ps \<Rightarrow> ps)"

fun origin_asns :: "origin \<Rightarrow> nat set" where
  "origin_asns (Asn asn) = {asn}"
| "origin_asns (AsSet asns) = set asns"

section \<open>\<^verbatim>\<open>build_asn_to_even_prefixes\<close> and \<^verbatim>\<open>build_asn_to_regex\<close>\<close>

text \<open>
  A dictionary that is iterated is the list of its items in insertion order (keys
  distinct); \<^verbatim>\<open>d[k] = v\<close> replaces the value of an existing key in place and appends a
  new key at the end.
\<close>

fun dict_set :: "'k \<Rightarrow> 'v \<Rightarrow> ('k \<times> 'v) list \<Rightarrow> ('k \<times> 'v) list" where
  "dict_set k v [] = [(k, v)]"
| "dict_set k v ((k', v') # d) = (if k' = k then (k, v) # d else (k', v') # dict_set k v d)"

text \<open>
  A Python set of strings is the list of its elements without repetition. The iteration
  order of a set is unspecified; the model keeps the order of insertion.
\<close>

definition set_add :: "string \<Rightarrow> string list \<Rightarrow> string list" where
  "set_add x s = (if x \<in> set s then s else s @ [x])"

text \<open>
  The innermost loop body: an empty chunk is skipped; otherwise
  \<^verbatim>\<open>even_asn_dict[asn].add(even_chunk)\<close> on a \<^verbatim>\<open>defaultdict(set)\<close>, which creates
  the entry of \<open>asn\<close> at this first access.
\<close>

definition add_chunk ::
  "nat \<Rightarrow> (nat \<times> string list) list \<Rightarrow> string \<Rightarrow> (nat \<times> string list) list" where
  "add_chunk asn even_asn_dict even_chunk =
     (if even_chunk = [] then even_asn_dict
      else dict_set asn
             (set_add even_chunk (case map_of even_asn_dict asn of None \<Rightarrow> [] | Some s \<Rightarrow> s))
             even_asn_dict)"

text \<open>A loop whose body can raise: the first exception ends it.\<close>

fun foldl_err :: "('s \<Rightarrow> 'a \<Rightarrow> 'e + 's) \<Rightarrow> 's \<Rightarrow> 'a list \<Rightarrow> 'e + 's" where
  "foldl_err f s [] = Inr s"
| "foldl_err f s (x # xs) = (case f s x of Inl e \<Rightarrow> Inl e | Inr s' \<Rightarrow> foldl_err f s' xs)"

definition add_prefix_chunks ::
  "nat \<Rightarrow> (nat \<times> string list) list \<Rightarrow> cidr \<Rightarrow> py_error + (nat \<times> string list) list" where
  "add_prefix_chunks asn even_asn_dict pfx =
     (case extract_even_ipv4_networks pfx of
        Inl e \<Rightarrow> Inl e
      | Inr chunks \<Rightarrow> Inr (foldl (add_chunk asn) even_asn_dict chunks))"

definition build_asn_to_even_prefixes ::
  "(nat \<times> cidr list) list \<Rightarrow> py_error + (nat \<times> string list) list" where
  "build_asn_to_even_prefixes asn_dict =
     foldl_err (\<lambda>even_asn_dict (asn, pfxs). foldl_err (add_prefix_chunks asn) even_asn_dict pfxs)
       [] asn_dict"

text \<open>
  \<^verbatim>\<open>RegExpBuilder(test_cases).without_end_anchor().build()\<close> of the library
  \<^verbatim>\<open>grex\<close>: the constructor raises ValueError when there are no test cases; what it
  builds otherwise is the parameter \<open>grex\<close>.
\<close>

definition RegExpBuilder :: "(string list \<Rightarrow> string) \<Rightarrow> string list \<Rightarrow> py_error + string" where
  "RegExpBuilder grex test_cases =
     (if test_cases = [] then Inl ValueError else Inr (grex test_cases))"

definition build_asn_to_regex ::
  "(string list \<Rightarrow> string) \<Rightarrow> (nat \<times> cidr list) list \<Rightarrow> py_error + (nat \<times> string) list" where
  "build_asn_to_regex grex asn_dict =
     (case build_asn_to_even_prefixes asn_dict of
        Inl e \<Rightarrow> Inl e
      | Inr even_asn_dict \<Rightarrow>
          collect (map (\<lambda>(asn, pfxs).
                          case RegExpBuilder grex pfxs of
                            Inl e \<Rightarrow> Inl e
                          | Inr regex \<Rightarrow> Inr (asn, regex))
                       even_asn_dict))"

text \<open>For the statements: the prefixes of the IPv6 family.\<close>

fun is_ipv6 :: "cidr \<Rightarrow> bool" where
  "is_ipv6 (Cidr6 a p) = True"
| "is_ipv6 (Cidr4 a p) = False"

section \<open>\<^verbatim>\<open>build_filename\<close> and the standard library's \<^verbatim>\<open>datetime\<close>\<close>

record datetime =
  year :: nat
  month :: nat
  day :: nat
  hour :: nat
  minute :: nat
  second :: nat
  microsecond :: nat

definition is_leap :: "nat \<Rightarrow> bool" where
  "is_leap y \<longleftrightarrow> y mod 4 = 0 \<and> (y mod 100 \<noteq> 0 \<or> y mod 400 = 0)"

definition days_in_month :: "nat \<Rightarrow> nat \<Rightarrow> nat" where
  "days_in_month y m =
     (if m = 2 then (if is_leap y then 29 else 28)
      else if m \<in> {4, 6, 9, 11} then 30 else 31)"

text \<open>
  What \<^verbatim>\<open>datetime.now(datetime.UTC)\<close> can return: a date of the calendar from the epoch
  on, with a time of day. (For these years \<^verbatim>\<open>%Y\<close> has four digits on every platform.)
\<close>

definition utc_now :: "datetime \<Rightarrow> bool" where
  "utc_now t \<longleftrightarrow>
     1970 \<le> year t \<and> year t \<le> 9999 \<and> 1 \<le> month t \<and> month t \<le> 12
     \<and> 1 \<le> day t \<and> day t \<le> days_in_month (year t) (month t)
     \<and> hour t < 24 \<and> minute t < 60 \<and> second t < 60 \<and> microsecond t < 1000000"

text \<open>
  \<^verbatim>\<open>now - datetime.timedelta(hours=1)\<close>: the hour before; from hour 0 the date rolls
  over to 23 h of the previous day, and OverflowError before year 1.
\<close>

definition sub_hour :: "datetime \<Rightarrow> py_error + datetime" where
  "sub_hour t =
     (if 0 < hour t then Inr (t\<lparr>hour := hour t - 1\<rparr>)
      else if 1 < day t then Inr (t\<lparr>day := day t - 1, hour := 23\<rparr>)
      else if 1 < month t then
        Inr (t\<lparr>month := month t - 1, day := days_in_month (year t) (month t - 1), hour := 23\<rparr>)
      else if 1 < year t then Inr (t\<lparr>year := year t - 1, month := 12, day := 31, hour := 23\<rparr>)
      else Inl OverflowError)"

text \<open>The loop \<^verbatim>\<open>while now.hour % 2 != 0: now -= timedelta(hours=1)\<close>.\<close>

function last_even_hour :: "datetime \<Rightarrow> py_error + datetime" where
  "last_even_hour now =
     (if hour now mod 2 \<noteq> 0 then
        (case sub_hour now of Inl e \<Rightarrow> Inl e | Inr now' \<Rightarrow> last_even_hour now')
      else Inr now)"
  by pat_completeness auto
termination
proof (relation "measure (\<lambda>now. hour now mod 2)")
  show "wf (measure (\<lambda>now. hour now mod 2))" by simp
next
  fix now now' :: datetime
  assume odd: "hour now mod 2 \<noteq> 0" and s: "sub_hour now = Inr now'"
  from odd have "0 < hour now" by (cases "hour now") auto
  with s have "hour now' = hour now - 1" by (auto simp: sub_hour_def)
  with odd show "(now', now) \<in> measure (\<lambda>now. hour now mod 2)"
    by (simp add: in_measure) presburger
qed

declare last_even_hour.simps [simp del]

text \<open>
  \<^verbatim>\<open>strftime\<close> with the directives of the format string used: \<^verbatim>\<open>%Y\<close> (four
  digits), \<^verbatim>\<open>%m\<close>, \<^verbatim>\<open>%d\<close>, \<^verbatim>\<open>%H\<close> (two digits, zero-padded); every other
  character is copied.
\<close>

definition zfill :: "nat \<Rightarrow> nat \<Rightarrow> string" where
  "zfill w n = replicate (w - length (str_nat n)) (CHR ''0'') @ str_nat n"

definition directive :: "char \<Rightarrow> datetime \<Rightarrow> string" where
  "directive c t =
     (if c = CHR ''Y'' then zfill 4 (year t)
      else if c = CHR ''m'' then zfill 2 (month t)
      else if c = CHR ''d'' then zfill 2 (day t)
      else if c = CHR ''H'' then zfill 2 (hour t)
      else [CHR ''%'', c])"

fun strftime :: "string \<Rightarrow> datetime \<Rightarrow> string" where
  "strftime [] t = []"
| "strftime [c] t = [c]"
| "strftime (c # d # cs) t =
     (if c = CHR ''%'' then directive d t @ strftime cs t else c # strftime (d # cs) t)"

definition build_filename :: "datetime \<Rightarrow> py_error + string" where
  "build_filename now =
     (case last_even_hour now of
        Inl e \<Rightarrow> Inl e
      | Inr t \<Rightarrow> Inr (strftime ''https://routeviews.org/bgpdata/%Y.%m/RIBS/rib.%Y%m%d.%H00.bz2'' t))"

section \<open>Facts about the library model\<close>

subsection \<open>Netmask arithmetic\<close>

lemma ALL_ONES_mask: "ALL_ONES bits = mask bits"
  by (simp add: ALL_ONES_def mask_eq_exp_minus_1)

lemma netmask_of_mask: "netmask_of bits p = mask bits XOR mask (bits - p)"
  by (simp add: netmask_of_def ALL_ONES_mask drop_bit_mask_eq)

lemma bit_lt_bound: "(a::nat) < 2 ^ bits \<Longrightarrow> bit a n \<Longrightarrow> n < bits"
  by (metis bit_take_bit_iff take_bit_nat_eq_self)

lemma and_netmask_of:
  assumes "a < 2 ^ bits"
  shows "a AND netmask_of bits p = push_bit (bits - p) (drop_bit (bits - p) a)"
proof (rule bit_eqI)
  fix n
  show "bit (a AND netmask_of bits p) n = bit (push_bit (bits - p) (drop_bit (bits - p) a)) n"
    using bit_lt_bound[OF assms, of n]
    by (auto simp add: netmask_of_mask bit_simps)
qed

lemma and_netmask_of_div:
  "a < 2 ^ bits \<Longrightarrow> a AND netmask_of bits p = a div 2 ^ (bits - p) * 2 ^ (bits - p)"
  by (simp add: and_netmask_of push_bit_eq_mult drop_bit_eq_div)

lemma hostmask_of: "netmask_of bits p XOR ALL_ONES bits = mask (bits - p)"
  by (rule bit_eqI) (auto simp add: netmask_of_mask ALL_ONES_mask bit_simps)

lemma hostmask4: "hostmask (IPv4Network n p) = 2 ^ (32 - p) - 1"
  by (simp add: hostmask_def netmask_def hostmask_of mask_eq_exp_minus_1)

lemma or_mask_aligned:
  assumes "(n::nat) mod 2 ^ k = 0"
  shows "n OR mask k = n + (2 ^ k - 1)"
proof -
  have "n AND mask k = 0"
    using assms by (simp add: take_bit_eq_mask[symmetric] take_bit_eq_mod)
  then have "n + mask k = n OR mask k" by (rule disjunctive_add_eq_or)
  then show ?thesis by (simp add: mask_eq_exp_minus_1)
qed

lemma broadcast4:
  "n mod 2 ^ (32 - p) = 0 \<Longrightarrow> broadcast_address (IPv4Network n p) = n + (2 ^ (32 - p) - 1)"
  by (simp add: broadcast_address_def hostmask_def netmask_def hostmask_of or_mask_aligned)

lemma ip_network4_nonstrict:
  assumes "a < 2 ^ 32" "p \<le> 32"
  shows "ip_network (Cidr4 a p) False = Inr (IPv4Network (a div 2 ^ (32 - p) * 2 ^ (32 - p)) p)"
proof -
  have "a AND netmask_of 32 p = a div 2 ^ (32 - p) * 2 ^ (32 - p)"
    using assms(1) by (rule and_netmask_of_div)
  with assms show ?thesis by (auto simp: make_network_def)
qed

lemma ip_network4_strict:
  assumes "a < 2 ^ 32" "p \<le> 32" "a mod 2 ^ (32 - p) = 0"
  shows "ip_network (Cidr4 a p) True = Inr (IPv4Network a p)"
proof -
  have "a AND netmask_of 32 p = a div 2 ^ (32 - p) * 2 ^ (32 - p)"
    using assms(1) by (rule and_netmask_of_div)
  also have "\<dots> = a" using assms(3) by (metis add.right_neutral div_mult_mod_eq)
  finally show ?thesis using assms by (simp add: make_network_def)
qed

lemma collect_map_Inr: "collect (map (\<lambda>x. Inr (f x)) xs) = Inr (map f xs)"
  by (induction xs) auto

lemma collect_Inr:
  "\<forall>x \<in> set xs. g x = Inr (f x) \<Longrightarrow> collect (map g xs) = Inr (map f xs)"
  by (induction xs) auto

lemma div_round_up_mult:
  assumes "0 < (s::nat)"
  shows "(m * s + s - 1) div s = m"
proof -
  from assms obtain k where k: "s = Suc k" by (cases s) auto
  have e: "m * s + s - 1 = k + m * s" using k by simp
  have d: "(k + m * s) div s = m + k div s"
    by (rule div_mult_self1) (use assms in simp)
  have z: "k div s = 0" using k by simp
  show ?thesis by (simp only: e d z add_0_right)
qed

lemma pow_split: "(p::nat) \<le> q \<Longrightarrow> q \<le> 32 \<Longrightarrow> (2::nat) ^ (32 - p) = 2 ^ (q - p) * 2 ^ (32 - q)"
  by (simp add: power_add[symmetric])

lemma aligned_top:
  assumes "(n::nat) mod 2 ^ (32 - p) = 0" "n < 2 ^ 32" "p \<le> 32"
  shows "n + 2 ^ (32 - p) \<le> 2 ^ 32"
proof -
  from assms(1) obtain m where m: "n = m * 2 ^ (32 - p)"
    by (auto simp: mod_eq_0_iff_dvd mult.commute elim: dvdE)
  have "(2::nat) ^ 32 = 2 ^ p * 2 ^ (32 - p)" using assms(3) by (simp add: power_add[symmetric])
  with assms(2) m have "m < 2 ^ p" by (metis mult_less_cancel2)
  then have "(m + 1) * 2 ^ (32 - p) \<le> 2 ^ p * 2 ^ (32 - p)"
    by (intro mult_le_mono1) simp
  with m \<open>(2::nat) ^ 32 = 2 ^ p * 2 ^ (32 - p)\<close> show ?thesis by (simp add: algebra_simps)
qed

lemma subnets4:
  assumes al: "n mod 2 ^ (32 - p) = 0" and n: "n < 2 ^ 32" and p: "p < 32" and pq: "p \<le> q" and q: "q \<le> 32"
  shows "subnets (IPv4Network n p) q =
         Inr (map (\<lambda>i. IPv4Network (n + i * 2 ^ (32 - q)) q) [0 ..< 2 ^ (q - p)])"
proof -
  let ?s = "(2::nat) ^ (32 - q)"
  have split: "(2::nat) ^ (32 - p) = 2 ^ (q - p) * ?s" using pq q by (rule pow_split)
  have step: "drop_bit (q - p) (hostmask (IPv4Network n p) + 1) = ?s"
    using split by (simp add: hostmask4 drop_bit_eq_div)
  have stop: "broadcast_address (IPv4Network n p) + 1 = n + 2 ^ (32 - p)"
    using al by (simp add: broadcast4)
  have cnt: "(n + 2 ^ (32 - p) - n + ?s - 1) div ?s = 2 ^ (q - p)"
    using div_round_up_mult[of ?s "2 ^ (q - p)"] by (simp add: split)
  have r: "range3 n (n + 2 ^ (32 - p)) ?s = map (\<lambda>i. n + i * ?s) [0 ..< 2 ^ (q - p)]"
    unfolding range3_def cnt ..
  have each: "ip_network (Cidr4 (n + i * ?s) q) True = Inr (IPv4Network (n + i * ?s) q)"
    if "i < 2 ^ (q - p)" for i
  proof (rule ip_network4_strict[OF _ q])
    have "n + i * ?s < n + 2 ^ (q - p) * ?s" using that by simp
    also have "\<dots> \<le> 2 ^ 32" using aligned_top[OF al n] p by (simp add: split)
    finally show "n + i * ?s < 2 ^ 32" .
    have "?s dvd n" using al split by (metis dvd_triv_right dvd_trans mod_eq_0_iff_dvd)
    then show "(n + i * ?s) mod ?s = 0" by simp
  qed
  have step': "drop_bit (q - p) (Suc (hostmask (IPv4Network n p))) = ?s"
    using step by simp
  have stop': "Suc (broadcast_address (IPv4Network n p)) = n + 2 ^ (32 - p)"
    using stop by simp
  have main: "collect (map (\<lambda>x. ip_network (Cidr4 x q) True) (range3 n (n + 2 ^ (32 - p)) ?s))
        = Inr (map (\<lambda>i. IPv4Network (n + i * ?s) q) [0 ..< 2 ^ (q - p)])"
    unfolding r map_map comp_def by (rule collect_Inr) (simp del: ip_network.simps add: each)
  show ?thesis
    using p pq q by (simp add: subnets_def Let_def step' stop' main del: ip_network.simps)
qed

subsection \<open>Decimal strings\<close>

lemma digit_char_neq_dot: "d < 10 \<Longrightarrow> digit_char d \<noteq> CHR ''.''"
proof -
  assume "d < 10"
  then have "d \<in> {0,1,2,3,4,5,6,7,8,9}" by auto
  then show ?thesis by (auto simp: digit_char_def)
qed

lemma digit_char_inj: "d < 10 \<Longrightarrow> e < 10 \<Longrightarrow> digit_char d = digit_char e \<Longrightarrow> d = e"
  unfolding digit_char_def
  by (subst (asm) nth_eq_iff_index_eq) simp_all

lemma str_nat_no_dot: "CHR ''.'' \<notin> set (str_nat n)"
proof (induction n rule: str_nat.induct)
  case (1 n)
  show ?case
  proof (cases "n < 10")
    case True
    then show ?thesis using digit_char_neq_dot[of n] by (simp add: str_nat.simps[of n])
  next
    case False
    have "n mod 10 < 10" by simp
    with False 1 show ?thesis
      using digit_char_neq_dot[of "n mod 10"] by (simp add: str_nat.simps[of n])
  qed
qed

lemma str_nat_nonempty: "str_nat n \<noteq> []"
  by (subst str_nat.simps) simp

lemma str_nat_inj: "str_nat a = str_nat b \<Longrightarrow> a = b"
proof (induction a arbitrary: b rule: str_nat.induct)
  case (1 n)
  show ?case
  proof (cases "n < 10")
    case True
    then have n: "str_nat n = [digit_char n]" by (simp add: str_nat.simps[of n])
    have "b < 10"
    proof (rule ccontr)
      assume "\<not> b < 10"
      then have "str_nat b = str_nat (b div 10) @ [digit_char (b mod 10)]"
        by (simp add: str_nat.simps[of b])
      with n 1(2) show False using str_nat_nonempty[of "b div 10"] by simp
    qed
    then have "str_nat b = [digit_char b]" by (simp add: str_nat.simps[of b])
    with n 1(2) True \<open>b < 10\<close> show ?thesis by (auto dest: digit_char_inj)
  next
    case False
    then have n: "str_nat n = str_nat (n div 10) @ [digit_char (n mod 10)]"
      by (simp add: str_nat.simps[of n])
    have "\<not> b < 10"
    proof
      assume "b < 10"
      then have "str_nat b = [digit_char b]" by (simp add: str_nat.simps[of b])
      with n 1(2) show False using str_nat_nonempty[of "n div 10"] by simp
    qed
    then have b: "str_nat b = str_nat (b div 10) @ [digit_char (b mod 10)]"
      by (simp add: str_nat.simps[of b])
    from n b 1(2) have e1: "str_nat (n div 10) = str_nat (b div 10)"
      and e2: "digit_char (n mod 10) = digit_char (b mod 10)" by simp_all
    from 1(1)[OF False e1] have "n div 10 = b div 10" .
    moreover from e2 have "n mod 10 = b mod 10" by (rule digit_char_inj[rotated 2]) simp_all
    ultimately show ?thesis by (metis div_mult_mod_eq)
  qed
qed

subsection \<open>split and join\<close>

lemma split_nonempty: "split c s \<noteq> []"
  by (induction s) (auto split: list.splits)

lemma split_no_sep: "c \<notin> set xs \<Longrightarrow> split c xs = [xs]"
  by (induction xs) auto

lemma split_append_sep: "c \<notin> set xs \<Longrightarrow> split c (xs @ c # ys) = xs # split c ys"
  by (induction xs) (auto simp: split_nonempty split: list.splits)

lemma split_join:
  "xs \<noteq> [] \<Longrightarrow> \<forall>x \<in> set xs. c \<notin> set x \<Longrightarrow> split c (join c xs) = xs"
  by (induction c xs rule: join.induct) (auto simp: split_no_sep split_append_sep)

lemma join_inj:
  "length xs = length ys \<Longrightarrow> \<forall>x \<in> set xs. c \<notin> set x \<Longrightarrow> \<forall>y \<in> set ys. c \<notin> set y \<Longrightarrow>
   join c xs = join c ys \<Longrightarrow> xs = ys"
  by (metis join.simps(1) length_0_conv split_join)

lemma split_str_ipv4: "split (CHR ''.'') (str_ipv4 a) = map str_nat (to_bytes4 a)"
  unfolding str_ipv4_def
  by (rule split_join) (auto simp: to_bytes4_def str_nat_no_dot)

lemma bytes_step: "(x::nat) mod 256 = y mod 256 \<Longrightarrow> x div 256 = y div 256 \<Longrightarrow> x = y"
  by (metis div_mult_mod_eq)

lemma to_bytes4_inj:
  assumes "a < 2 ^ 32" "b < 2 ^ 32" "to_bytes4 a = to_bytes4 b"
  shows "a = b"
proof -
  have d: "a div 16777216 = a div 256 div 256 div 256" "b div 16777216 = b div 256 div 256 div 256"
    "a div 65536 = a div 256 div 256" "b div 65536 = b div 256 div 256"
    by (simp_all add: div_mult2_eq[symmetric])
  from assms(1,2) have s: "a div 256 div 256 div 256 < 256" "b div 256 div 256 div 256 < 256"
    by (simp_all add: div_mult2_eq[symmetric] less_mult_imp_div_less)
  from assms(3) have
    e0: "a mod 256 = b mod 256" and
    e1: "a div 256 mod 256 = b div 256 mod 256" and
    e2: "a div 256 div 256 mod 256 = b div 256 div 256 mod 256" and
    e3: "a div 256 div 256 div 256 mod 256 = b div 256 div 256 div 256 mod 256"
    by (simp_all add: to_bytes4_def d)
  from e3 s have "a div 256 div 256 div 256 = b div 256 div 256 div 256" by simp
  then have "a div 256 div 256 = b div 256 div 256" by (rule bytes_step[OF e2])
  then have "a div 256 = b div 256" by (rule bytes_step[OF e1])
  then show ?thesis by (rule bytes_step[OF e0])
qed

lemma str_ipv4_inj:
  assumes "a < 2 ^ 32" "b < 2 ^ 32" "str_ipv4 a = str_ipv4 b"
  shows "a = b"
proof -
  from assms(3) have "map str_nat (to_bytes4 a) = map str_nat (to_bytes4 b)"
    by (metis split_str_ipv4)
  then have "to_bytes4 a = to_bytes4 b"
    by (simp add: to_bytes4_def) (auto dest: str_nat_inj)
  with assms(1,2) show ?thesis by (rule to_bytes4_inj)
qed

subsection \<open>Tokens\<close>

lemma collect_index: "k \<le> length xs \<Longrightarrow> collect (map (index xs) [0 ..< k]) = Inr (take k xs)"
proof -
  assume k: "k \<le> length xs"
  have "collect (map (index xs) [0 ..< k]) = Inr (map ((!) xs) [0 ..< k])"
    by (rule collect_Inr) (use k in \<open>auto simp: index_def\<close>)
  moreover have "map ((!) xs) [0 ..< k] = take k xs"
    using k by (simp add: list_eq_iff_nth_eq)
  ultimately show ?thesis by simp
qed

lemma octet_token_str_ipv4: "k \<le> 4 \<Longrightarrow> octet_token k (str_ipv4 a) = Inr (octet_prefix k a)"
proof -
  assume "k \<le> 4"
  then have "k \<le> length (map str_nat (to_bytes4 a))" by (simp add: to_bytes4_def)
  then show ?thesis
    by (simp add: split_str_ipv4 collect_index octet_prefix_def Let_def del: map_map)
qed

lemma prefix_join:
  "k < length ys \<Longrightarrow> prefix (concat (map (\<lambda>x. x @ [c]) (take k ys))) (join c ys)"
proof (induction c ys arbitrary: k rule: join.induct)
  case (3 c x y ys)
  then show ?case by (cases k) auto
qed auto

lemma octet_prefix_prefix:
  assumes "k < 4" "take k (to_bytes4 s) = take k (to_bytes4 x)"
  shows "prefix (octet_prefix k s) (str_ipv4 x)"
proof -
  have "take k (map str_nat (to_bytes4 s)) = take k (map str_nat (to_bytes4 x))"
    using assms(2) by (simp add: take_map)
  moreover have "k < length (map str_nat (to_bytes4 x))" using assms(1) by (simp add: to_bytes4_def)
  ultimately show ?thesis
    unfolding octet_prefix_def str_ipv4_def using prefix_join[of k "map str_nat (to_bytes4 x)" "CHR ''.''"]
    by simp
qed

lemma trunc_div:
  assumes "j \<le> j'"
  shows "(x div 2 ^ j * 2 ^ j) div 2 ^ j' = x div (2::nat) ^ j'"
proof -
  have e: "(2::nat) ^ j' = 2 ^ j * 2 ^ (j' - j)" using assms by (simp add: power_add[symmetric])
  show ?thesis unfolding e by (simp add: div_mult2_eq)
qed

lemma take_bytes_trunc:
  assumes "(k, j) \<in> {(1, 24), (2, 16), (3, 8)}"
  shows "take k (to_bytes4 (x div 2 ^ j * 2 ^ j)) = take k (to_bytes4 x)"
proof -
  have t24: "x div 2 ^ j * 2 ^ j div 2 ^ 24 = x div 2 ^ 24"
    using assms by (intro trunc_div) auto
  have t16: "j \<le> 16 \<Longrightarrow> x div 2 ^ j * 2 ^ j div 2 ^ 16 = x div 2 ^ 16"
    by (rule trunc_div)
  have t8: "j \<le> 8 \<Longrightarrow> x div 2 ^ j * 2 ^ j div 2 ^ 8 = x div 2 ^ 8"
    by (rule trunc_div)
  from assms consider "k = 1" "j = 24" | "k = 2" "j = 16" | "k = 3" "j = 8" by auto
  then show ?thesis
  proof cases
    case 1
    then show ?thesis using t24 by (simp add: to_bytes4_def)
  next
    case 2
    then show ?thesis using t24 t16 by (simp add: to_bytes4_def numeral_2_eq_2)
  next
    case 3
    then show ?thesis using t24 t16 t8 by (simp add: to_bytes4_def numeral_3_eq_3)
  qed
qed

lemma subnet_tokens4:
  assumes al: "n mod 2 ^ (32 - p) = 0" and n: "n < 2 ^ 32" and p: "p < 32" and pq: "p \<le> q"
    and q: "q \<le> 32" and k: "k \<le> 4"
  shows "subnet_tokens (IPv4Network n p) q k =
         Inr (map (\<lambda>i. octet_prefix k (n + i * 2 ^ (32 - q))) [0 ..< 2 ^ (q - p)])"
proof -
  have "collect (map (\<lambda>subnet. octet_token k (str_ipv4 (network_address subnet)))
          (map (\<lambda>i. IPv4Network (n + i * 2 ^ (32 - q)) q) [0 ..< 2 ^ (q - p)]))
        = Inr (map (\<lambda>i. octet_prefix k (n + i * 2 ^ (32 - q))) [0 ..< 2 ^ (q - p)])"
    unfolding map_map comp_def
    by (rule collect_Inr) (simp add: octet_token_str_ipv4[OF k] del: octet_token.simps)
  then show ?thesis
    by (simp add: subnet_tokens_def subnets4[OF al n p pq q])
qed

lemma masked_aligned: "(a div 2 ^ j * 2 ^ j) mod 2 ^ j = (0::nat)"
  by simp

lemma masked_le: "a div 2 ^ j * 2 ^ j \<le> (a::nat)"
  by (metis div_mult_mod_eq le_add1)

lemma extract4:
  assumes "a < 2 ^ 32" "p \<le> 32"
  shows "extract_even_ipv4_networks (Cidr4 a p) =
    (let net = IPv4Network (a div 2 ^ (32 - p) * 2 ^ (32 - p)) p in
     if p \<le> 8 then subnet_tokens net 8 1
     else if p \<le> 16 then subnet_tokens net 16 2
     else if p \<le> 24 then subnet_tokens net 24 3
     else Inr ([str_ipv4 (network_address net)] @ map str_ipv4 (hosts net)
               @ [str_ipv4 (broadcast_address net)]))"
  by (simp add: extract_even_ipv4_networks_def ip_network4_nonstrict[OF assms] Let_def
        del: ip_network.simps)

lemma contains4:
  assumes "x < 2 ^ 32"
  shows "contains (IPv4Network n p) x \<longleftrightarrow> x div 2 ^ (32 - p) * 2 ^ (32 - p) = n"
  by (simp add: contains_def netmask_def and_netmask_of_div[OF assms])

text \<open>The subnet of width \<open>2 ^ j\<close> that holds \<open>x\<close> is among those enumerated.\<close>

lemma subnet_of_member:
  assumes pq: "p \<le> q" and q: "q \<le> 32" and x: "x div 2 ^ (32 - p) * 2 ^ (32 - p) = (n::nat)"
  shows "\<exists>i < 2 ^ (q - p). x div 2 ^ (32 - q) * 2 ^ (32 - q) = n + i * 2 ^ (32 - q)"
proof -
  let ?P = "(2::nat) ^ (32 - p)" and ?S = "(2::nat) ^ (32 - q)"
  have split: "?P = 2 ^ (q - p) * ?S" using pq q by (rule pow_split)
  have xr: "x = n + x mod ?P" using x by (metis div_mult_mod_eq)
  have nS: "n = (x div ?P * 2 ^ (q - p)) * ?S" using x by (simp add: split mult.assoc)
  have "x div ?S = x div ?P * 2 ^ (q - p) + (x mod ?P) div ?S"
  proof -
    have "x div ?S = ((x div ?P * 2 ^ (q - p)) * ?S + x mod ?P) div ?S"
      using xr nS by simp
    also have "\<dots> = x div ?P * 2 ^ (q - p) + (x mod ?P) div ?S"
      by (rule div_mult_self3) simp
    finally show ?thesis .
  qed
  then have "x div ?S * ?S = n + ((x mod ?P) div ?S) * ?S"
    using nS by (simp add: algebra_simps)
  moreover have "(x mod ?P) div ?S < 2 ^ (q - p)"
  proof -
    have "x mod ?P < 2 ^ (q - p) * ?S" unfolding split[symmetric] by simp
    then show ?thesis by (simp add: less_mult_imp_div_less)
  qed
  ultimately show ?thesis by blast
qed

lemma cover_branch:
  assumes qk: "(k, 32 - q) \<in> {(1, 24), (2, 16), (3, 8)}" and pq: "p \<le> q" and q: "q \<le> 32"
    and x: "x div 2 ^ (32 - p) * 2 ^ (32 - p) = n"
  shows "\<exists>t \<in> set (map (\<lambda>i. octet_prefix k (n + i * 2 ^ (32 - q))) [0 ..< 2 ^ (q - p)]).
           prefix t (str_ipv4 x)"
proof -
  from subnet_of_member[OF pq q x] obtain i where i: "i < 2 ^ (q - p)"
    and e: "x div 2 ^ (32 - q) * 2 ^ (32 - q) = n + i * 2 ^ (32 - q)" by blast
  have "take k (to_bytes4 (n + i * 2 ^ (32 - q))) = take k (to_bytes4 x)"
    unfolding e[symmetric] using qk by (rule take_bytes_trunc)
  moreover have "k < 4" using qk by auto
  ultimately have "prefix (octet_prefix k (n + i * 2 ^ (32 - q))) (str_ipv4 x)"
    by (rule octet_prefix_prefix[rotated])
  with i show ?thesis by auto
qed

section \<open>The claims about \<^verbatim>\<open>extract_even_ipv4_networks\<close>\<close>

text \<open>
  Claim C1. For every IPv4 prefix of length at most 24 (whatever host bits its text
  carries), the decomposer returns a token list, and every IPv4 address contained in the
  parsed network has one of the tokens as a literal string prefix of its dotted-quad
  string.
\<close>

theorem tokens_cover_prefix:
  assumes a: "a < 2 ^ 32" and p: "p \<le> 24" and x: "x < 2 ^ 32"
    and net: "ip_network (Cidr4 a p) False = Inr net" and mem: "contains net x"
  shows "\<exists>toks. extract_even_ipv4_networks (Cidr4 a p) = Inr toks
           \<and> (\<exists>t \<in> set toks. prefix t (str_ipv4 x))"
proof -
  let ?n = "a div 2 ^ (32 - p) * 2 ^ (32 - p)"
  have p32: "p \<le> 32" "p < 32" using p by simp_all
  have neq: "net = IPv4Network ?n p"
    using net ip_network4_nonstrict[OF a p32(1)] by simp
  have xn: "x div 2 ^ (32 - p) * 2 ^ (32 - p) = ?n"
    using mem unfolding neq contains4[OF x] .
  have n32: "?n < 2 ^ 32" by (rule le_less_trans[OF masked_le a])
  have al: "?n mod 2 ^ (32 - p) = 0" by (rule masked_aligned)
  note ex = extract4[OF a p32(1), unfolded Let_def]
  have branch: "\<exists>toks. subnet_tokens (IPv4Network ?n p) q k = Inr toks
           \<and> (\<exists>t \<in> set toks. prefix t (str_ipv4 x))"
    if "(k, 32 - q) \<in> {(1, 24), (2, 16), (3, 8)}" "p \<le> q" "q \<le> 32" for q k
  proof -
    have "k \<le> 4" using that(1) by auto
    from subnet_tokens4[OF al n32 p32(2) that(2,3) this] cover_branch[OF that xn]
    show ?thesis by blast
  qed
  consider "p \<le> 8" | "\<not> p \<le> 8" "p \<le> 16" | "\<not> p \<le> 16" "p \<le> 24" using p by linarith
  then show ?thesis
  proof cases
    case 1
    then show ?thesis unfolding ex using branch[of 1 8] by simp
  next
    case 2
    then show ?thesis unfolding ex using branch[of 2 16] by simp
  next
    case 3
    then show ?thesis unfolding ex using branch[of 3 24] by simp
  qed
qed

text \<open>
  The prefix 10.0.0.0/16 (address integer 167772160) yields exactly the token
  \<^verbatim>\<open>10.0.\<close>, and the address 10.0.1.5 (167772421) inside it starts with that token.
\<close>

theorem tokens_cover_prefix_witness:
  "(167772160::nat) < 2 ^ 32 \<and> (16::nat) \<le> 24 \<and> (167772421::nat) < 2 ^ 32
   \<and> ip_network (Cidr4 167772160 16) False = Inr (IPv4Network 167772160 16)
   \<and> contains (IPv4Network 167772160 16) 167772421
   \<and> extract_even_ipv4_networks (Cidr4 167772160 16) = Inr [''10.0.'']
   \<and> prefix ''10.0.'' (str_ipv4 167772421)"
proof -
  have a: "(167772160::nat) < 2 ^ 32" and p: "(16::nat) \<le> 24" and x: "(167772421::nat) < 2 ^ 32"
    by simp_all
  have net: "ip_network (Cidr4 167772160 16) False = Inr (IPv4Network 167772160 16)"
    by (simp add: ip_network4_nonstrict del: ip_network.simps)
  have mem: "contains (IPv4Network 167772160 16) 167772421"
    by (simp add: contains4)
  have ex: "extract_even_ipv4_networks (Cidr4 167772160 16) = Inr [''10.0.'']"
    by (simp add: extract4 subnet_tokens4 octet_prefix_def to_bytes4_def str_nat.simps
          digit_char_def)
  from tokens_cover_prefix[OF a p x net mem] ex
  have "prefix ''10.0.'' (str_ipv4 167772421)" by simp
  with a p x net mem ex show ?thesis by blast
qed

lemma hosts4_set:
  assumes "n mod 2 ^ (32 - p) = 0" "p \<le> 32"
  shows "set ([n] @ hosts (IPv4Network n p) @ [broadcast_address (IPv4Network n p)])
         = {n .. n + (2 ^ (32 - p) - 1)}"
proof -
  define h :: nat where "h = 2 ^ (32 - p) - 1"
  have b: "broadcast_address (IPv4Network n p) = n + h"
    unfolding h_def using assms(1) by (rule broadcast4)
  have h0: "h = 0" if "p = 32" using that by (simp add: h_def)
  consider "p = 32" | "p = 31" | "p < 31" using assms(2) by linarith
  then have "set ([n] @ hosts (IPv4Network n p) @ [n + h]) = {n .. n + h}"
  proof cases
    case 1
    then show ?thesis using h0 by (simp add: hosts_def)
  next
    case 2
    then show ?thesis using b by (auto simp: hosts_def)
  next
    case 3
    then show ?thesis using b by (auto simp: hosts_def)
  qed
  then show ?thesis unfolding b h_def .
qed

lemma extract4_fine:
  assumes "a < 2 ^ 32" "24 < p" "p \<le> 32"
  shows "extract_even_ipv4_networks (Cidr4 a p) =
    (let net = IPv4Network (a div 2 ^ (32 - p) * 2 ^ (32 - p)) p in
     Inr (map str_ipv4 ([network_address net] @ hosts net @ [broadcast_address net])))"
  using assms(2) by (simp add: extract4[OF assms(1,3)] Let_def)

lemma str_ipv4_inj_on: "b < 2 ^ 32 \<Longrightarrow> inj_on str_ipv4 {n .. b}"
  by (rule inj_onI) (auto intro: str_ipv4_inj)

lemma ex30: "extract_even_ipv4_networks (Cidr4 3232235776 30)
   = Inr [''192.168.1.0'', ''192.168.1.1'', ''192.168.1.2'', ''192.168.1.3'']"
  by (simp add: extract4 hosts_def broadcast4 to_bytes4_def str_ipv4_def str_nat.simps
        digit_char_def upt_rec[of 3232235777] upt_rec[of 3232235778] upt_rec[of 3232235779])

text \<open>
  Claim C2. For every IPv4 prefix of length 25 to 32, the set of distinct tokens has
  exactly \<open>2 ^ (32 - prefixlen)\<close> elements, contains the strings of the network and of
  the broadcast address, and is the set of the strings of all addresses of the block.
\<close>

theorem fine_prefix_token_set:
  assumes a: "a < 2 ^ 32" and p25: "25 \<le> p" and p32: "p \<le> 32"
    and net: "ip_network (Cidr4 a p) False = Inr net"
  shows "\<exists>toks. extract_even_ipv4_networks (Cidr4 a p) = Inr toks
           \<and> card (set toks) = 2 ^ (32 - p)
           \<and> str_ipv4 (network_address net) \<in> set toks
           \<and> str_ipv4 (broadcast_address net) \<in> set toks
           \<and> set toks = str_ipv4 ` {network_address net .. broadcast_address net}"
proof -
  let ?n = "a div 2 ^ (32 - p) * 2 ^ (32 - p)"
  define h :: nat where "h = 2 ^ (32 - p) - 1"
  define toks where
    "toks = map str_ipv4 ([network_address net] @ hosts net @ [broadcast_address net])"
  have neq: "net = IPv4Network ?n p"
    using net ip_network4_nonstrict[OF a p32] by simp
  have al: "?n mod 2 ^ (32 - p) = 0" by (rule masked_aligned)
  have n32: "?n < 2 ^ 32" by (rule le_less_trans[OF masked_le a])
  have na: "network_address net = ?n" unfolding neq by simp
  have b: "broadcast_address net = ?n + h"
    unfolding neq h_def using al by (rule broadcast4)
  have b32: "?n + h < 2 ^ 32" using aligned_top[OF al n32 p32] by (simp add: h_def)
  have ex: "extract_even_ipv4_networks (Cidr4 a p) = Inr toks"
    using extract4_fine[OF a _ p32] p25 by (simp add: Let_def toks_def neq)
  have hs: "set ([network_address net] @ hosts net @ [broadcast_address net])
            = {network_address net .. broadcast_address net}"
    using hosts4_set[OF al p32] unfolding b na unfolding neq h_def b[unfolded neq h_def] .
  have s: "set toks = str_ipv4 ` {network_address net .. broadcast_address net}"
    unfolding toks_def set_map hs ..
  have "card (set toks) = card {network_address net .. broadcast_address net}"
    unfolding s by (rule card_image) (unfold b, rule str_ipv4_inj_on[OF b32])
  also have "\<dots> = 2 ^ (32 - p)" unfolding b na by (simp add: h_def)
  finally have c: "card (set toks) = 2 ^ (32 - p)" .
  have le: "network_address net \<le> broadcast_address net" unfolding b na by (rule le_add1)
  have m1: "str_ipv4 (network_address net) \<in> set toks"
    unfolding s using le by (intro imageI) simp
  have m2: "str_ipv4 (broadcast_address net) \<in> set toks"
    unfolding s using le by (intro imageI) simp
  show ?thesis
    by (rule exI[of _ toks]) (intro conjI ex c m1 m2 s)
qed

text \<open>192.168.1.0/30 (address integer 3232235776) yields the four addresses of the block.\<close>

theorem fine_prefix_token_set_witness:
  "(3232235776::nat) < 2 ^ 32 \<and> (25::nat) \<le> 30 \<and> (30::nat) \<le> 32
   \<and> ip_network (Cidr4 3232235776 30) False = Inr (IPv4Network 3232235776 30)
   \<and> extract_even_ipv4_networks (Cidr4 3232235776 30)
       = Inr [''192.168.1.0'', ''192.168.1.1'', ''192.168.1.2'', ''192.168.1.3'']
   \<and> card (set [''192.168.1.0'', ''192.168.1.1'', ''192.168.1.2'', ''192.168.1.3'']) = 2 ^ (32 - 30)"
proof -
  have a: "(3232235776::nat) < 2 ^ 32" and p25: "(25::nat) \<le> 30" and p32: "(30::nat) \<le> 32"
    by simp_all
  have net: "ip_network (Cidr4 3232235776 30) False = Inr (IPv4Network 3232235776 30)"
    by (simp add: ip_network4_nonstrict del: ip_network.simps)
  from fine_prefix_token_set[OF a p25 p32 net] obtain toks
    where t: "extract_even_ipv4_networks (Cidr4 3232235776 30) = Inr toks"
      and c: "card (set toks) = 2 ^ (32 - 30)" by blast
  from t have "toks = [''192.168.1.0'', ''192.168.1.1'', ''192.168.1.2'', ''192.168.1.3'']"
    unfolding ex30 by (rule sum.inject(2)[THEN iffD1, symmetric])
  from c[unfolded this] a p25 p32 net ex30 show ?thesis by (intro conjI)
qed

lemma extract4_32:
  assumes "a < 2 ^ 32"
  shows "extract_even_ipv4_networks (Cidr4 a 32) = Inr [str_ipv4 a, str_ipv4 a, str_ipv4 a]"
  by (simp add: extract4[OF assms] hosts_def broadcast4)

lemma extract4_31:
  assumes "a < 2 ^ 32"
  shows "extract_even_ipv4_networks (Cidr4 a 31) =
         Inr [str_ipv4 (a div 2 * 2), str_ipv4 (a div 2 * 2),
              str_ipv4 (a div 2 * 2 + 1), str_ipv4 (a div 2 * 2 + 1)]"
  by (simp add: extract4[OF assms] hosts_def broadcast4 upt_rec[of "a div 2 * 2"]
        upt_rec[of "Suc (a div 2 * 2)"])

lemma pair_neq:
  assumes "a < 2 ^ 32"
  shows "str_ipv4 (a div 2 * 2) \<noteq> str_ipv4 (a div 2 * 2 + 1)"
proof
  assume e: "str_ipv4 (a div 2 * 2) = str_ipv4 (a div 2 * 2 + 1)"
  have "a div 2 * 2 \<le> a" by simp
  with assms have n: "a div 2 * 2 < 2 ^ 32" by simp
  have "(a div 2 * 2) mod 2 ^ (32 - 31) = 0" by simp
  from aligned_top[OF this] n have "a div 2 * 2 + 1 < 2 ^ 32" by simp
  from str_ipv4_inj[OF n this e] show False by simp
qed

text \<open>
  Claim C9. The token sequence of a /32 is the same address string three times (network
  address, host, broadcast address); that of a /31 holds each of its two address strings
  twice. In both cases the sequence has duplicates and two more elements than the
  \<open>2 ^ (32 - prefixlen)\<close> distinct strings that remain in a set.
\<close>

theorem host_prefix_duplicates:
  assumes a: "a < 2 ^ 32"
  shows "extract_even_ipv4_networks (Cidr4 a 32) = Inr [str_ipv4 a, str_ipv4 a, str_ipv4 a]
       \<and> extract_even_ipv4_networks (Cidr4 a 31) =
             Inr [str_ipv4 (a div 2 * 2), str_ipv4 (a div 2 * 2),
                  str_ipv4 (a div 2 * 2 + 1), str_ipv4 (a div 2 * 2 + 1)]
       \<and> str_ipv4 (a div 2 * 2) \<noteq> str_ipv4 (a div 2 * 2 + 1)
       \<and> (\<forall>p toks. (p = 31 \<or> p = 32) \<and> extract_even_ipv4_networks (Cidr4 a p) = Inr toks
             \<longrightarrow> \<not> distinct toks \<and> length toks = 2 ^ (32 - p) + 2
                 \<and> card (set toks) = 2 ^ (32 - p))"
proof (intro conjI allI impI)
  show "extract_even_ipv4_networks (Cidr4 a 32) = Inr [str_ipv4 a, str_ipv4 a, str_ipv4 a]"
    using a by (rule extract4_32)
  show "extract_even_ipv4_networks (Cidr4 a 31) =
         Inr [str_ipv4 (a div 2 * 2), str_ipv4 (a div 2 * 2),
              str_ipv4 (a div 2 * 2 + 1), str_ipv4 (a div 2 * 2 + 1)]"
    using a by (rule extract4_31)
  show "str_ipv4 (a div 2 * 2) \<noteq> str_ipv4 (a div 2 * 2 + 1)"
    using a by (rule pair_neq)
next
  fix p toks
  assume h: "(p = 31 \<or> p = 32) \<and> extract_even_ipv4_networks (Cidr4 a p) = Inr toks"
  then consider "p = 32" "toks = [str_ipv4 a, str_ipv4 a, str_ipv4 a]"
    | "p = 31" "toks = [str_ipv4 (a div 2 * 2), str_ipv4 (a div 2 * 2),
                       str_ipv4 (a div 2 * 2 + 1), str_ipv4 (a div 2 * 2 + 1)]"
    using extract4_32[OF a] extract4_31[OF a] by auto
  then have r: "\<not> distinct toks \<and> length toks = 2 ^ (32 - p) + 2 \<and> card (set toks) = 2 ^ (32 - p)"
  proof cases
    case 1
    then show ?thesis by simp
  next
    case 2
    then show ?thesis using pair_neq[OF a] by simp
  qed
  from r show "\<not> distinct toks" by simp
  from r show "length toks = 2 ^ (32 - p) + 2" by simp
  from r show "card (set toks) = 2 ^ (32 - p)" by simp
qed

theorem host_prefix_duplicates_witness:
  "(3232235776::nat) < 2 ^ 32
   \<and> extract_even_ipv4_networks (Cidr4 3232235776 32)
       = Inr [''192.168.1.0'', ''192.168.1.0'', ''192.168.1.0'']
   \<and> extract_even_ipv4_networks (Cidr4 3232235776 31)
       = Inr [''192.168.1.0'', ''192.168.1.0'', ''192.168.1.1'', ''192.168.1.1'']"
proof -
  have a: "(3232235776::nat) < 2 ^ 32" by simp
  have s0: "str_ipv4 3232235776 = ''192.168.1.0''"
    by (simp add: str_ipv4_def to_bytes4_def str_nat.simps digit_char_def)
  have s1: "str_ipv4 3232235777 = ''192.168.1.1''"
    by (simp add: str_ipv4_def to_bytes4_def str_nat.simps digit_char_def)
  from host_prefix_duplicates[OF a]
  have "extract_even_ipv4_networks (Cidr4 3232235776 32)
          = Inr [str_ipv4 3232235776, str_ipv4 3232235776, str_ipv4 3232235776]"
    and "extract_even_ipv4_networks (Cidr4 3232235776 31)
          = Inr [str_ipv4 3232235776, str_ipv4 3232235776, str_ipv4 3232235777, str_ipv4 3232235777]"
    by simp_all
  then show ?thesis unfolding s0 s1 using a by (intro conjI)
qed

lemma extract4_total:
  assumes a: "a < 2 ^ 32" and p: "p \<le> 32"
  shows "\<exists>toks. extract_even_ipv4_networks (Cidr4 a p) = Inr toks"
proof -
  let ?n = "a div 2 ^ (32 - p) * 2 ^ (32 - p)"
  have n32: "?n < 2 ^ 32" by (rule le_less_trans[OF masked_le a])
  have al: "?n mod 2 ^ (32 - p) = 0" by (rule masked_aligned)
  note ex = extract4[OF a p, unfolded Let_def]
  consider "p \<le> 8" | "\<not> p \<le> 8" "p \<le> 16" | "\<not> p \<le> 16" "p \<le> 24" | "\<not> p \<le> 24"
    by linarith
  then show ?thesis
  proof cases
    case 1
    then show ?thesis unfolding ex using subnet_tokens4[OF al n32, of 8 1] by simp
  next
    case 2
    then show ?thesis unfolding ex using subnet_tokens4[OF al n32, of 16 2] by simp
  next
    case 3
    then show ?thesis unfolding ex using subnet_tokens4[OF al n32, of 24 3] by simp
  next
    case 4
    then show ?thesis unfolding ex by simp
  qed
qed

text \<open>
  Claim C10. A prefix whose address has host bits set is accepted (no exception): the
  decomposer returns a token list, the same as for the canonical prefix with the host bits
  masked off; \<^verbatim>\<open>strict=False\<close> parses to the network that the strict constructor
  gives for the canonical prefix, where \<^verbatim>\<open>strict=True\<close> would raise ValueError.
\<close>

theorem nonstrict_host_bits_same_tokens:
  assumes a: "a < 2 ^ 32" and p: "p \<le> 32"
  shows "(\<exists>toks. extract_even_ipv4_networks (Cidr4 a p) = Inr toks)
       \<and> extract_even_ipv4_networks (Cidr4 a p)
           = extract_even_ipv4_networks (Cidr4 (a AND netmask_of 32 p) p)
       \<and> ip_network (Cidr4 a p) False = ip_network (Cidr4 (a AND netmask_of 32 p) p) True
       \<and> (a AND netmask_of 32 p \<noteq> a \<longrightarrow> ip_network (Cidr4 a p) True = Inl ValueError)"
proof -
  let ?n = "a div 2 ^ (32 - p) * 2 ^ (32 - p)"
  have m: "a AND netmask_of 32 p = ?n" using a by (rule and_netmask_of_div)
  have n32: "?n < 2 ^ 32" by (rule le_less_trans[OF masked_le a])
  have al: "?n mod 2 ^ (32 - p) = 0" by (rule masked_aligned)
  have idem: "?n div 2 ^ (32 - p) * 2 ^ (32 - p) = ?n" by simp
  have e1: "extract_even_ipv4_networks (Cidr4 a p) = extract_even_ipv4_networks (Cidr4 ?n p)"
    unfolding extract4[OF a p] extract4[OF n32 p] idem ..
  have e2: "ip_network (Cidr4 a p) False = ip_network (Cidr4 ?n p) True"
    unfolding ip_network4_nonstrict[OF a p] ip_network4_strict[OF n32 p al] ..
  have e3: "a AND netmask_of 32 p \<noteq> a \<longrightarrow> ip_network (Cidr4 a p) True = Inl ValueError"
    by (simp add: make_network_def)
  from extract4_total[OF a p] e1 e2 e3 show ?thesis unfolding m by (intro conjI)
qed

text \<open>10.0.0.5/8 (167772165) against the canonical 10.0.0.0/8 (167772160).\<close>

theorem nonstrict_host_bits_same_tokens_witness:
  "(167772165::nat) < 2 ^ 32 \<and> (8::nat) \<le> 32
   \<and> 167772165 AND netmask_of 32 8 = 167772160
   \<and> extract_even_ipv4_networks (Cidr4 167772165 8) = Inr [''10.'']
   \<and> extract_even_ipv4_networks (Cidr4 167772160 8) = Inr [''10.'']
   \<and> ip_network (Cidr4 167772165 8) False = Inr (IPv4Network 167772160 8)
   \<and> ip_network (Cidr4 167772165 8) True = Inl ValueError"
proof -
  have a: "(167772165::nat) < 2 ^ 32" and p: "(8::nat) \<le> 32" by simp_all
  have m: "167772165 AND netmask_of 32 8 = 167772160"
    by (simp add: and_netmask_of_div)
  have ex: "extract_even_ipv4_networks (Cidr4 167772160 8) = Inr [''10.'']"
    by (simp add: extract4 subnet_tokens4 octet_prefix_def to_bytes4_def str_nat.simps
          digit_char_def)
  have net: "ip_network (Cidr4 167772160 8) True = Inr (IPv4Network 167772160 8)"
    by (simp add: ip_network4_strict del: ip_network.simps)
  note t = nonstrict_host_bits_same_tokens[OF a p, unfolded m]
  from t have t2: "extract_even_ipv4_networks (Cidr4 167772165 8)
      = extract_even_ipv4_networks (Cidr4 167772160 8)" by (rule conjunct2[THEN conjunct1])
  from t have t3: "ip_network (Cidr4 167772165 8) False = ip_network (Cidr4 167772160 8) True"
    by (rule conjunct2[THEN conjunct2, THEN conjunct1])
  from t have t4: "(167772160::nat) \<noteq> 167772165 \<longrightarrow> ip_network (Cidr4 167772165 8) True = Inl ValueError"
    by (rule conjunct2[THEN conjunct2, THEN conjunct2])
  have t4': "ip_network (Cidr4 167772165 8) True = Inl ValueError"
    by (rule mp[OF t4]) simp
  from a p m t2[unfolded ex] ex t3[unfolded net] t4' show ?thesis by (intro conjI)
qed

section \<open>The claims about \<^verbatim>\<open>parse_rib_to_dict\<close>\<close>

lemma append_prefix_apply:
  "append_prefix a p d b = (if b = a then Some (entries d a @ [p]) else d b)"
  by (simp add: append_prefix_def entries_def)

lemma foldl_append_prefix:
  "distinct S \<Longrightarrow>
   foldl (\<lambda>d a. append_prefix a p d) d S
     = (\<lambda>b. if b \<in> set S then Some (entries d b @ [p]) else d b)"
proof (induction S arbitrary: d)
  case Nil
  then show ?case by simp
next
  case (Cons a S)
  then have IH: "foldl (\<lambda>d a. append_prefix a p d) (append_prefix a p d) S
     = (\<lambda>b. if b \<in> set S then Some (entries (append_prefix a p d) b @ [p])
             else append_prefix a p d b)" by simp
  show ?case
    unfolding foldl_Cons IH using Cons.prems
    by (auto simp: append_prefix_apply entries_def fun_eq_iff)
qed

lemma add_item_apply:
  "wf_origin orig \<Longrightarrow>
   add_item d (p, orig) = (\<lambda>b. if b \<in> origin_asns orig then Some (entries d b @ [p]) else d b)"
  by (cases orig) (auto simp: foldl_append_prefix append_prefix_apply fun_eq_iff)

lemma entries_add_item:
  "wf_origin orig \<Longrightarrow>
   entries (add_item d (p, orig)) b = (if b \<in> origin_asns orig then entries d b @ [p] else entries d b)"
  by (simp add: add_item_apply) (simp add: entries_def)

lemma count_foldl_add_item:
  "distinct (map fst items) \<Longrightarrow> list_all (wf_origin \<circ> snd) items \<Longrightarrow>
   count_list (entries (foldl add_item d items) asn) p
     = count_list (entries d asn) p
       + (if \<exists>orig. (p, orig) \<in> set items \<and> asn \<in> origin_asns orig then 1 else 0)"
proof (induction items arbitrary: d)
  case Nil
  then show ?case by simp
next
  case (Cons it items)
  obtain q orig where it: "it = (q, orig)" by (cases it)
  from Cons.prems have d: "distinct (map fst items)" and w: "list_all (wf_origin \<circ> snd) items"
    and wo: "wf_origin orig" and nq: "q \<notin> fst ` set items"
    by (simp_all add: it comp_def)
  have step: "count_list (entries (add_item d (q, orig)) asn) p
     = count_list (entries d asn) p + (if q = p \<and> asn \<in> origin_asns orig then 1 else 0)"
    by (simp add: entries_add_item[OF wo])
  have ex: "(\<exists>o'. (p, o') \<in> set (it # items) \<and> asn \<in> origin_asns o')
     \<longleftrightarrow> (q = p \<and> asn \<in> origin_asns orig) \<or> (\<exists>o'. (p, o') \<in> set items \<and> asn \<in> origin_asns o')"
    unfolding it by auto
  have excl: "\<not> (q = p \<and> (\<exists>o'. (p, o') \<in> set items \<and> asn \<in> origin_asns o'))"
    using nq by force
  show ?case
    unfolding ex using Cons.IH[OF d w, of "add_item d (q, orig)"] step excl
    by (auto simp: it)
qed

lemma count_build_asn_dict:
  assumes "wf_prefixes items"
  shows "count_list (entries (build_asn_dict items) asn) p
         = (if \<exists>orig. (p, orig) \<in> set items \<and> asn \<in> origin_asns orig then 1 else 0)"
  using assms count_foldl_add_item[of items Map.empty asn p]
  by (simp add: wf_prefixes_def build_asn_dict_def entries_def)

lemma entries_parse_rib:
  "entries (parse_rib_to_dict items) asn = sorted_prefixes (entries (build_asn_dict items) asn)"
  by (simp add: parse_rib_to_dict_def entries_def sorted_prefixes_def split: option.splits)

lemma count_list_sorted_prefixes: "count_list (sorted_prefixes xs) p = count_list xs p"
  by (metis count_mset mset_sort sorted_prefixes_def)

lemma unique_origin:
  assumes "distinct (map fst items)" "(p, o1) \<in> set items" "(p, o2) \<in> set items"
  shows "o1 = o2"
  using assms by (meson eq_key_imp_eq_value)

lemma wf_items_ex:
  "wf_prefixes [(''10.10.0.0/24'', Asn 5), (''10.2.0.0/24'', AsSet [5, 7])]"
  by (simp add: wf_prefixes_def)

lemma parse_rib_ex:
  "parse_rib_to_dict [(''10.10.0.0/24'', Asn 5), (''10.2.0.0/24'', AsSet [5, 7])] 5
   = Some [''10.2.0.0/24'', ''10.10.0.0/24'']"
  by code_simp

text \<open>
  Claim C6. For a prefix whose origin is an AS_SET, the loop body appends the prefix to
  the list of every ASN of the set and changes no other ASN's list; in the map that
  \<^verbatim>\<open>parse_rib_to_dict\<close> returns, the prefix occurs exactly once in the list of every
  ASN of the set and in no other list.
\<close>

theorem as_set_fan_out:
  assumes wf: "wf_prefixes items" and mem: "(p, AsSet S) \<in> set items"
  shows "(\<forall>d. add_item d (p, AsSet S)
              = (\<lambda>asn. if asn \<in> set S then Some (entries d asn @ [p]) else d asn))
       \<and> (\<forall>asn. count_list (entries (parse_rib_to_dict items) asn) p
                 = (if asn \<in> set S then 1 else 0))"
proof (intro conjI allI)
  from wf mem have dS: "wf_origin (AsSet S)"
    by (auto simp: wf_prefixes_def list_all_iff)
  fix d
  show "add_item d (p, AsSet S)
        = (\<lambda>asn. if asn \<in> set S then Some (entries d asn @ [p]) else d asn)"
    using add_item_apply[OF dS] by simp
next
  fix asn
  have "(\<exists>orig. (p, orig) \<in> set items \<and> asn \<in> origin_asns orig) \<longleftrightarrow> asn \<in> set S"
  proof
    assume "\<exists>orig. (p, orig) \<in> set items \<and> asn \<in> origin_asns orig"
    then obtain orig where o: "(p, orig) \<in> set items" "asn \<in> origin_asns orig" by blast
    from wf have "distinct (map fst items)" by (simp add: wf_prefixes_def)
    from unique_origin[OF this o(1) mem] o(2) show "asn \<in> set S" by simp
  next
    assume "asn \<in> set S"
    with mem show "\<exists>orig. (p, orig) \<in> set items \<and> asn \<in> origin_asns orig"
      by (intro exI[of _ "AsSet S"]) simp
  qed
  then show "count_list (entries (parse_rib_to_dict items) asn) p = (if asn \<in> set S then 1 else 0)"
    by (simp add: entries_parse_rib count_list_sorted_prefixes count_build_asn_dict[OF wf])
qed

theorem as_set_fan_out_witness:
  "wf_prefixes [(''10.10.0.0/24'', Asn 5), (''10.2.0.0/24'', AsSet [5, 7])]
   \<and> (''10.2.0.0/24'', AsSet [5, 7]) \<in> set [(''10.10.0.0/24'', Asn 5), (''10.2.0.0/24'', AsSet [5, 7])]
   \<and> count_list (entries (parse_rib_to_dict
         [(''10.10.0.0/24'', Asn 5), (''10.2.0.0/24'', AsSet [5, 7])]) 5) ''10.2.0.0/24'' = 1
   \<and> count_list (entries (parse_rib_to_dict
         [(''10.10.0.0/24'', Asn 5), (''10.2.0.0/24'', AsSet [5, 7])]) 7) ''10.2.0.0/24'' = 1
   \<and> count_list (entries (parse_rib_to_dict
         [(''10.10.0.0/24'', Asn 5), (''10.2.0.0/24'', AsSet [5, 7])]) 8) ''10.2.0.0/24'' = 0"
proof -
  let ?items = "[(''10.10.0.0/24'', Asn 5), (''10.2.0.0/24'', AsSet [5, 7])]"
  have mem: "(''10.2.0.0/24'', AsSet [5, 7]) \<in> set ?items" by simp
  from as_set_fan_out[OF wf_items_ex mem]
  have c: "\<And>asn. count_list (entries (parse_rib_to_dict ?items) asn) ''10.2.0.0/24''
           = (if asn \<in> set [5, 7] then 1 else 0)" by blast
  have "count_list (entries (parse_rib_to_dict ?items) 5) ''10.2.0.0/24'' = 1"
    "count_list (entries (parse_rib_to_dict ?items) 7) ''10.2.0.0/24'' = 1"
    "count_list (entries (parse_rib_to_dict ?items) 8) ''10.2.0.0/24'' = 0"
    unfolding c by simp_all
  with wf_items_ex mem show ?thesis by (intro conjI)
qed

lemma nonempty_foldl_add_item:
  "list_all (wf_origin \<circ> snd) items \<Longrightarrow> \<forall>a ps. d a = Some ps \<longrightarrow> ps \<noteq> [] \<Longrightarrow>
   foldl add_item d items asn = Some qs \<Longrightarrow> qs \<noteq> []"
proof (induction items arbitrary: d)
  case Nil
  then show ?case by simp
next
  case (Cons it items)
  obtain q orig where it: "it = (q, orig)" by (cases it)
  from Cons.prems(1) have wo: "wf_origin orig" and w: "list_all (wf_origin \<circ> snd) items"
    by (simp_all add: it comp_def)
  have "\<forall>a ps. add_item d (q, orig) a = Some ps \<longrightarrow> ps \<noteq> []"
    using Cons.prems(2) by (auto simp: add_item_apply[OF wo])
  from Cons.IH[OF w this] Cons.prems(3) show ?case by (simp add: it)
qed

lemma distinct_if_count_le1: "(\<And>a. count_list xs a \<le> 1) \<Longrightarrow> distinct xs"
proof (induction xs)
  case Nil
  then show ?case by simp
next
  case (Cons x xs)
  from Cons.prems[of x] have "count_list xs x = 0" by simp
  then have "x \<notin> set xs" by (simp add: count_list_0_iff)
  moreover have "count_list xs a \<le> 1" for a
    using Cons.prems[of a] by (simp split: if_splits)
  ultimately show ?case using Cons.IH by simp
qed

lemma distinct_entries_build:
  assumes "wf_prefixes items"
  shows "distinct (entries (build_asn_dict items) asn)"
  by (rule distinct_if_count_le1) (simp add: count_build_asn_dict[OF assms])

text \<open>
  Claim C7. In the map that \<^verbatim>\<open>parse_rib_to_dict\<close> returns, no ASN's list holds a
  prefix string twice, and every ASN that is a key has a non-empty list.
\<close>

theorem asn_lists_distinct_nonempty:
  assumes wf: "wf_prefixes items" and some: "parse_rib_to_dict items asn = Some ps"
  shows "distinct ps \<and> ps \<noteq> []"
proof -
  from some obtain qs where qs: "build_asn_dict items asn = Some qs"
    and ps: "ps = sorted_prefixes qs"
    by (auto simp: parse_rib_to_dict_def)
  from qs have e: "entries (build_asn_dict items) asn = qs" by (simp add: entries_def)
  from distinct_entries_build[OF wf, of asn] have "distinct qs" unfolding e .
  moreover have "qs \<noteq> []"
    using nonempty_foldl_add_item[of items Map.empty asn qs] wf qs
    by (simp add: wf_prefixes_def build_asn_dict_def)
  moreover from this have "sort_key ip_sort_key qs \<noteq> []"
    by (metis length_0_conv length_sort)
  ultimately show ?thesis
    unfolding ps sorted_prefixes_def by simp
qed

theorem asn_lists_distinct_nonempty_witness:
  "wf_prefixes [(''10.10.0.0/24'', Asn 5), (''10.2.0.0/24'', AsSet [5, 7])]
   \<and> parse_rib_to_dict [(''10.10.0.0/24'', Asn 5), (''10.2.0.0/24'', AsSet [5, 7])] 5
       = Some [''10.2.0.0/24'', ''10.10.0.0/24'']
   \<and> distinct [''10.2.0.0/24'', ''10.10.0.0/24''] \<and> [''10.2.0.0/24'', ''10.10.0.0/24''] \<noteq> []"
  using asn_lists_distinct_nonempty[OF wf_items_ex parse_rib_ex] wf_items_ex parse_rib_ex
  by (intro conjI) simp_all

section \<open>The claims about \<^verbatim>\<open>ip_sort_key\<close>\<close>

subsection \<open>Stable sorting by a key\<close>

lemma insort_key_cong_order:
  "\<forall>y \<in> set ys. f x \<le> f y \<longleftrightarrow> g x \<le> g y \<Longrightarrow> insort_key f x ys = insort_key g x ys"
  by (induction ys) auto

lemma sort_key_cong_order:
  "\<forall>x \<in> set xs. \<forall>y \<in> set xs. f x \<le> f y \<longleftrightarrow> g x \<le> g y \<Longrightarrow> sort_key f xs = sort_key g xs"
proof (induction xs)
  case Nil
  then show ?case by simp
next
  case (Cons x xs)
  then have IH: "sort_key f xs = sort_key g xs" by simp
  have "insort_key f x (sort_key g xs) = insort_key g x (sort_key g xs)"
    by (rule insort_key_cong_order) (use Cons.prems in simp)
  then show ?case by (simp add: sort_key_simps IH)
qed

lemma insort_key_append_right:
  "\<forall>b \<in> set B. f x \<le> f b \<Longrightarrow> insort_key f x (A @ B) = insort_key f x A @ B"
proof (induction A)
  case Nil
  then show ?case by (cases B) auto
next
  case (Cons a A)
  then show ?case by simp
qed

lemma insort_key_append_left:
  "\<forall>a \<in> set A. \<not> f x \<le> f a \<Longrightarrow> insort_key f x (A @ B) = A @ insort_key f x B"
  by (induction A) auto

lemma sort_key_partition:
  fixes f :: "'a \<Rightarrow> 'k::linorder"
  assumes "\<forall>x \<in> set xs. \<forall>y \<in> set xs. P x \<and> \<not> P y \<longrightarrow> f x < f y"
  shows "sort_key f xs = sort_key f (filter P xs) @ sort_key f (filter (\<lambda>x. \<not> P x) xs)"
  using assms
proof (induction xs)
  case Nil
  then show ?case by simp
next
  case (Cons x xs)
  let ?A = "sort_key f (filter P xs)" and ?B = "sort_key f (filter (\<lambda>x. \<not> P x) xs)"
  from Cons have IH: "sort_key f xs = ?A @ ?B" by simp
  show ?case
  proof (cases "P x")
    case True
    have "\<forall>b \<in> set ?B. f x \<le> f b"
      using Cons.prems True by (auto simp: less_imp_le)
    then have "insort_key f x (?A @ ?B) = insort_key f x ?A @ ?B"
      by (rule insort_key_append_right)
    with True show ?thesis by (simp add: sort_key_simps IH)
  next
    case False
    have "\<forall>a \<in> set ?A. \<not> f x \<le> f a"
      using Cons.prems False by (auto simp: not_le)
    then have "insort_key f x (?A @ ?B) = ?A @ insort_key f x ?B"
      by (rule insort_key_append_left)
    with False show ?thesis by (simp add: sort_key_simps IH)
  qed
qed

subsection \<open>Release tuples and their comparison keys\<close>

lemma strip_zeros_Cons:
  "rev (dropWhile (\<lambda>x. x = 0) (rev (x # xs))) =
     (if x = (0::nat) \<and> rev (dropWhile (\<lambda>x. x = 0) (rev xs)) = [] then []
      else x # rev (dropWhile (\<lambda>x. x = 0) (rev xs)))"
  by (auto simp: dropWhile_append dropWhile_eq_Nil_conv)

lemma strip_zeros_le:
  assumes "length xs = length ys"
  shows "rev (dropWhile (\<lambda>x. x = 0) (rev xs)) \<le> rev (dropWhile (\<lambda>x. x = 0) (rev ys))
     \<longleftrightarrow> xs \<le> (ys :: nat list)"
proof -
  define s where "s = (\<lambda>r :: nat list. rev (dropWhile (\<lambda>x. x = 0) (rev r)))"
  have sC: "s (x # r) = (if x = 0 \<and> s r = [] then [] else x # s r)" for x r
    unfolding s_def by (rule strip_zeros_Cons)
  have sN: "s [] = []" by (simp add: s_def)
  from assms have "s xs \<le> s ys \<longleftrightarrow> xs \<le> ys"
  proof (induction xs ys rule: list_induct2)
    case Nil
    then show ?case by (simp add: sN)
  next
    case (Cons x xs y ys)
    show ?case
      unfolding sC using Cons.IH by (auto simp: not_less)
  qed
  then show ?thesis unfolding s_def .
qed

lemma ip_sort_key_version:
  "is_version s \<Longrightarrow> ip_sort_key s = (0, rev (dropWhile (\<lambda>x. x = 0) (rev (release_of s))), [])"
  by (auto simp: is_version_def ip_sort_key_def release_of_def cmpkey_def)

lemma ip_sort_key_other: "\<not> is_version s \<Longrightarrow> ip_sort_key s = (1, [], s)"
  by (auto simp: is_version_def ip_sort_key_def)

lemma version_key_le:
  "((0::nat, A :: nat list, [] :: string) \<le> (0, B, [])) \<longleftrightarrow> A \<le> B"
  by auto

lemma sorted_versions_by_release:
  assumes "list_all (\<lambda>s. is_version s \<and> length (release_of s) = 4) ys"
  shows "sort_key ip_sort_key ys = sort_key release_of ys"
proof (rule sort_key_cong_order, intro ballI)
  fix a b
  assume "a \<in> set ys" "b \<in> set ys"
  with assms have va: "is_version a" and vb: "is_version b"
    and l: "length (release_of a) = length (release_of b)"
    by (auto simp: list_all_iff)
  show "ip_sort_key a \<le> ip_sort_key b \<longleftrightarrow> release_of a \<le> release_of b"
    unfolding ip_sort_key_version[OF va] ip_sort_key_version[OF vb] version_key_le
    by (rule strip_zeros_le[OF l])
qed

lemma sorted_others_by_text:
  assumes "list_all (\<lambda>s. \<not> is_version s) ys"
  shows "sort_key ip_sort_key ys = sort ys"
proof (rule sort_key_cong_order, intro ballI)
  fix a b
  assume "a \<in> set ys" "b \<in> set ys"
  with assms have va: "\<not> is_version a" and vb: "\<not> is_version b"
    by (auto simp: list_all_iff)
  show "ip_sort_key a \<le> ip_sort_key b \<longleftrightarrow> a \<le> b"
    unfolding ip_sort_key_other[OF va] ip_sort_key_other[OF vb] by simp
qed

lemma versions_before_others:
  "sort_key ip_sort_key xs
   = sort_key ip_sort_key (filter is_version xs) @ sort_key ip_sort_key (filter (\<lambda>s. \<not> is_version s) xs)"
proof (rule sort_key_partition, intro ballI impI)
  fix a b
  assume "is_version a \<and> \<not> is_version b"
  then show "ip_sort_key a < ip_sort_key b"
    by (simp add: ip_sort_key_version ip_sort_key_other)
qed

lemma sort_ex_dom: "list_all rib_prefix_text [''2001:db8::/32'', ''10.10.0.0/24'', ''10.2.0.0/24'']"
  by code_simp

lemma sort_ex_v4:
  "filter is_version [''2001:db8::/32'', ''10.10.0.0/24'', ''10.2.0.0/24'']
     = [''10.10.0.0/24'', ''10.2.0.0/24'']"
  by code_simp

lemma sort_ex_v6:
  "filter (\<lambda>s. \<not> is_version s) [''2001:db8::/32'', ''10.10.0.0/24'', ''10.2.0.0/24'']
     = [''2001:db8::/32'']"
  by code_simp

lemma sort_ex_len:
  "list_all (\<lambda>s. length (release_of s) = 4) [''10.10.0.0/24'', ''10.2.0.0/24'']"
  by code_simp

lemma sort_ex_rel:
  "sort_key release_of [''10.10.0.0/24'', ''10.2.0.0/24''] = [''10.2.0.0/24'', ''10.10.0.0/24'']"
  by code_simp

lemma sort_ex_txt: "sort [''2001:db8::/32''] = [''2001:db8::/32'']"
  by simp

text \<open>
  Claim C3. For every list of prefix strings, \<^verbatim>\<open>sorted(prefixes, key=ip_sort_key)\<close>
  is a permutation of the list with non-decreasing keys, in which every string whose
  address part (the text before the \<^verbatim>\<open>/\<close>) parses as a dotted numeric version comes
  before every string whose address part does not. The parseable strings, when they all
  have four octet groups, are in the (stable) order of their octet tuples compared
  component by component as numbers; the others are in plain lexicographic string order.
\<close>

theorem ip_sort_key_order:
  assumes dom: "list_all rib_prefix_text xs"
  shows "sorted (map ip_sort_key (sorted_prefixes xs)) \<and> mset (sorted_prefixes xs) = mset xs
    \<and> sorted_prefixes xs
        = sorted_prefixes (filter is_version xs) @ sorted_prefixes (filter (\<lambda>s. \<not> is_version s) xs)
    \<and> (list_all (\<lambda>s. length (release_of s) = 4) (filter is_version xs)
        \<longrightarrow> sorted_prefixes (filter is_version xs) = sort_key release_of (filter is_version xs))
    \<and> sorted_prefixes (filter (\<lambda>s. \<not> is_version s) xs) = sort (filter (\<lambda>s. \<not> is_version s) xs)"
proof (intro conjI impI)
  show "sorted (map ip_sort_key (sorted_prefixes xs))"
    unfolding sorted_prefixes_def by (rule sorted_sort_key)
  show "mset (sorted_prefixes xs) = mset xs"
    unfolding sorted_prefixes_def by (rule mset_sort)
  show "sorted_prefixes xs
        = sorted_prefixes (filter is_version xs) @ sorted_prefixes (filter (\<lambda>s. \<not> is_version s) xs)"
    unfolding sorted_prefixes_def by (rule versions_before_others)
  show "sorted_prefixes (filter (\<lambda>s. \<not> is_version s) xs) = sort (filter (\<lambda>s. \<not> is_version s) xs)"
    unfolding sorted_prefixes_def by (rule sorted_others_by_text) (simp add: list_all_iff)
next
  assume "list_all (\<lambda>s. length (release_of s) = 4) (filter is_version xs)"
  then have "list_all (\<lambda>s. is_version s \<and> length (release_of s) = 4) (filter is_version xs)"
    by (simp add: list_all_iff)
  then show "sorted_prefixes (filter is_version xs) = sort_key release_of (filter is_version xs)"
    unfolding sorted_prefixes_def by (rule sorted_versions_by_release)
qed

text \<open>
  Numeric, not lexicographic, octet comparison: \<^verbatim>\<open>10.2.0.0/24\<close> sorts before
  \<^verbatim>\<open>10.10.0.0/24\<close>, and the IPv6 prefix sorts last.
\<close>

theorem ip_sort_key_order_witness:
  "list_all rib_prefix_text [''2001:db8::/32'', ''10.10.0.0/24'', ''10.2.0.0/24'']
   \<and> list_all (\<lambda>s. length (release_of s) = 4)
        (filter is_version [''2001:db8::/32'', ''10.10.0.0/24'', ''10.2.0.0/24''])
   \<and> sorted_prefixes [''2001:db8::/32'', ''10.10.0.0/24'', ''10.2.0.0/24'']
       = [''10.2.0.0/24'', ''10.10.0.0/24'', ''2001:db8::/32'']"
proof -
  let ?xs = "[''2001:db8::/32'', ''10.10.0.0/24'', ''10.2.0.0/24'']"
  note t = ip_sort_key_order[OF sort_ex_dom, unfolded sort_ex_v4 sort_ex_v6]
  have len: "list_all (\<lambda>s. length (release_of s) = 4) [''10.10.0.0/24'', ''10.2.0.0/24'']"
    by (rule sort_ex_len)
  from t have split: "sorted_prefixes ?xs
      = sorted_prefixes [''10.10.0.0/24'', ''10.2.0.0/24''] @ sorted_prefixes [''2001:db8::/32'']"
    by (rule conjunct2[THEN conjunct2, THEN conjunct1])
  from t have "list_all (\<lambda>s. length (release_of s) = 4) [''10.10.0.0/24'', ''10.2.0.0/24'']
      \<longrightarrow> sorted_prefixes [''10.10.0.0/24'', ''10.2.0.0/24'']
          = sort_key release_of [''10.10.0.0/24'', ''10.2.0.0/24'']"
    by (rule conjunct2[THEN conjunct2, THEN conjunct2, THEN conjunct1])
  from mp[OF this len] have v4: "sorted_prefixes [''10.10.0.0/24'', ''10.2.0.0/24'']
      = [''10.2.0.0/24'', ''10.10.0.0/24'']" unfolding sort_ex_rel .
  from t have v6: "sorted_prefixes [''2001:db8::/32''] = [''2001:db8::/32'']"
    unfolding sort_ex_txt by (rule conjunct2[THEN conjunct2, THEN conjunct2, THEN conjunct2])
  have "sorted_prefixes ?xs = [''10.2.0.0/24'', ''10.10.0.0/24'', ''2001:db8::/32'']"
    unfolding split v4 v6 by simp
  with sort_ex_dom len show ?thesis unfolding sort_ex_v4 by (intro conjI)
qed

section \<open>The claim about \<^verbatim>\<open>build_asn_to_regex\<close>\<close>

lemma extract_ipv6: "is_ipv6 pfx \<Longrightarrow> extract_even_ipv4_networks pfx = Inr chunks \<Longrightarrow> chunks = []"
  by (cases pfx) (auto simp: extract_even_ipv4_networks_def make_network_def split: if_splits)

lemma set_add_nonempty: "set_add x s \<noteq> []"
  by (auto simp: set_add_def)

lemma set_dict_set: "set (dict_set k v d) \<subseteq> insert (k, v) (set d)"
  by (induction d) (auto split: if_splits)

text \<open>The invariant of the loops: every stored set is non-empty, every key is in \<open>K\<close>.\<close>

lemma add_chunk_inv:
  assumes inv: "\<forall>(a, s) \<in> set d. s \<noteq> [] \<and> a \<in> K" and k: "asn \<in> K"
  shows "\<forall>(a, s) \<in> set (add_chunk asn d c). s \<noteq> [] \<and> a \<in> K"
proof (cases "c = []")
  case True
  with inv show ?thesis by (simp add: add_chunk_def)
next
  case False
  let ?v = "set_add c (case map_of d asn of None \<Rightarrow> [] | Some s \<Rightarrow> s)"
  have "set (add_chunk asn d c) \<subseteq> insert (asn, ?v) (set d)"
    using False set_dict_set[of asn ?v d] by (simp add: add_chunk_def)
  moreover have "?v \<noteq> []" by (rule set_add_nonempty)
  ultimately show ?thesis using inv k by fastforce
qed

lemma foldl_add_chunk_inv:
  assumes "\<forall>(a, s) \<in> set d. s \<noteq> [] \<and> a \<in> K" "asn \<in> K"
  shows "\<forall>(a, s) \<in> set (foldl (add_chunk asn) d cs). s \<noteq> [] \<and> a \<in> K"
  using assms(1)
proof (induction cs arbitrary: d)
  case Nil
  then show ?case by simp
next
  case (Cons c cs)
  from Cons.IH[OF add_chunk_inv[OF Cons.prems assms(2)]] show ?case by simp
qed

lemma add_prefix_chunks_inv:
  assumes inv: "\<forall>(a, s) \<in> set d. s \<noteq> [] \<and> a \<in> K" and k: "\<not> is_ipv6 pfx \<longrightarrow> asn \<in> K"
    and r: "add_prefix_chunks asn d pfx = Inr d'"
  shows "\<forall>(a, s) \<in> set d'. s \<noteq> [] \<and> a \<in> K"
proof -
  from r obtain chunks where c: "extract_even_ipv4_networks pfx = Inr chunks"
    and d': "d' = foldl (add_chunk asn) d chunks"
    by (auto simp: add_prefix_chunks_def split: sum.splits)
  show ?thesis
  proof (cases "is_ipv6 pfx")
    case True
    from extract_ipv6[OF True c] have "chunks = []" .
    with d' inv show ?thesis by simp
  next
    case False
    with k have "asn \<in> K" by simp
    from foldl_add_chunk_inv[OF inv this] show ?thesis unfolding d' .
  qed
qed

lemma inner_loop_inv:
  assumes "\<forall>(a, s) \<in> set d. s \<noteq> [] \<and> a \<in> K" "\<forall>pfx \<in> set pfxs. \<not> is_ipv6 pfx \<longrightarrow> asn \<in> K"
    "foldl_err (add_prefix_chunks asn) d pfxs = Inr d'"
  shows "\<forall>(a, s) \<in> set d'. s \<noteq> [] \<and> a \<in> K"
  using assms
proof (induction pfxs arbitrary: d)
  case Nil
  then show ?case by simp
next
  case (Cons pfx pfxs)
  from Cons.prems(3) obtain d1 where s: "add_prefix_chunks asn d pfx = Inr d1"
    and rest: "foldl_err (add_prefix_chunks asn) d1 pfxs = Inr d'"
    by (auto split: sum.splits)
  from add_prefix_chunks_inv[OF Cons.prems(1) _ s] Cons.prems(2)
  have "\<forall>(a, s) \<in> set d1. s \<noteq> [] \<and> a \<in> K" by simp
  from Cons.IH[OF this _ rest] Cons.prems(2) show ?case by simp
qed

lemma outer_loop_inv:
  assumes "\<forall>(a, s) \<in> set d. s \<noteq> [] \<and> a \<in> K"
    "\<forall>(asn, pfxs) \<in> set asn_dict. \<forall>pfx \<in> set pfxs. \<not> is_ipv6 pfx \<longrightarrow> asn \<in> K"
    "foldl_err (\<lambda>d (asn, pfxs). foldl_err (add_prefix_chunks asn) d pfxs) d asn_dict = Inr d'"
  shows "\<forall>(a, s) \<in> set d'. s \<noteq> [] \<and> a \<in> K"
  using assms
proof (induction asn_dict arbitrary: d)
  case Nil
  then show ?case by simp
next
  case (Cons it asn_dict)
  obtain asn pfxs where it: "it = (asn, pfxs)" by (cases it)
  from Cons.prems(3) obtain d1 where s: "foldl_err (add_prefix_chunks asn) d pfxs = Inr d1"
    and rest: "foldl_err (\<lambda>d (asn, pfxs). foldl_err (add_prefix_chunks asn) d pfxs) d1 asn_dict = Inr d'"
    by (auto simp: it split: sum.splits)
  from inner_loop_inv[OF Cons.prems(1) _ s] Cons.prems(2)
  have "\<forall>(a, s) \<in> set d1. s \<noteq> [] \<and> a \<in> K" by (simp add: it)
  from Cons.IH[OF this _ rest] Cons.prems(2) show ?case by simp
qed

lemma even_prefixes_inv:
  assumes "build_asn_to_even_prefixes asn_dict = Inr ev"
  shows "\<forall>(a, s) \<in> set ev. s \<noteq> []
           \<and> (\<exists>pfxs pfx. (a, pfxs) \<in> set asn_dict \<and> pfx \<in> set pfxs \<and> \<not> is_ipv6 pfx)"
proof -
  let ?K = "{a. \<exists>pfxs pfx. (a, pfxs) \<in> set asn_dict \<and> pfx \<in> set pfxs \<and> \<not> is_ipv6 pfx}"
  have "\<forall>(a, s) \<in> set ev. s \<noteq> [] \<and> a \<in> ?K"
    by (rule outer_loop_inv[OF _ _ assms[unfolded build_asn_to_even_prefixes_def]]) auto
  then show ?thesis by auto
qed

lemma regex_of_nonempty:
  "\<forall>(a, s) \<in> set ev. s \<noteq> [] \<Longrightarrow>
   collect (map (\<lambda>(asn, pfxs). case RegExpBuilder grex pfxs of
                                  Inl e \<Rightarrow> Inl e | Inr regex \<Rightarrow> Inr (asn, regex)) ev)
     = Inr (map (\<lambda>(asn, pfxs). (asn, grex pfxs)) ev)"
  by (induction ev) (auto simp: RegExpBuilder_def)

lemma even_ex:
  "build_asn_to_even_prefixes
     [(64500, [Cidr4 3405803776 24]), (64501, [Cidr6 42540766411282592856903984951653826560 32])]
   = Inr [(64500, [''203.0.113.''])]"
  by (simp add: build_asn_to_even_prefixes_def add_prefix_chunks_def add_chunk_def set_add_def
        extract4 subnet_tokens4 octet_prefix_def to_bytes4_def str_nat.simps digit_char_def
        extract_even_ipv4_networks_def[of "Cidr6 a p" for a p] make_network_def netmask_of_def
        ALL_ONES_def)

text \<open>
  Claim C4. When \<^verbatim>\<open>build_asn_to_even_prefixes\<close> returns, every token set it holds is
  non-empty, so \<^verbatim>\<open>RegExpBuilder\<close> is never called with an empty list and
  \<^verbatim>\<open>build_asn_to_regex\<close> returns a regex for exactly the ASNs of that dictionary; an
  ASN whose prefixes are all IPv6 is a key of neither dictionary. (When
  \<^verbatim>\<open>build_asn_to_even_prefixes\<close> raises, no regex is built at all.)
\<close>

theorem ipv6_only_asn_absent:
  assumes ok: "build_asn_to_even_prefixes asn_dict = Inr ev"
  shows "(\<forall>test_cases \<in> set (map snd ev). test_cases \<noteq> [])
       \<and> build_asn_to_regex grex asn_dict = Inr (map (\<lambda>(asn, pfxs). (asn, grex pfxs)) ev)
       \<and> (\<forall>asn. (\<forall>(a, pfxs) \<in> set asn_dict. a = asn \<longrightarrow> (\<forall>pfx \<in> set pfxs. is_ipv6 pfx))
              \<longrightarrow> asn \<notin> fst ` set ev
                \<and> (\<forall>rm. build_asn_to_regex grex asn_dict = Inr rm \<longrightarrow> asn \<notin> fst ` set rm))"
proof -
  note inv = even_prefixes_inv[OF ok]
  have ne: "\<forall>(a, s) \<in> set ev. s \<noteq> []" using inv by auto
  have c1: "\<forall>test_cases \<in> set (map snd ev). test_cases \<noteq> []" using ne by auto
  have c2: "build_asn_to_regex grex asn_dict = Inr (map (\<lambda>(asn, pfxs). (asn, grex pfxs)) ev)"
    by (simp add: build_asn_to_regex_def ok regex_of_nonempty[OF ne])
  have c3: "asn \<notin> fst ` set ev \<and> (\<forall>rm. build_asn_to_regex grex asn_dict = Inr rm \<longrightarrow> asn \<notin> fst ` set rm)"
    if h: "\<forall>(a, pfxs) \<in> set asn_dict. a = asn \<longrightarrow> (\<forall>pfx \<in> set pfxs. is_ipv6 pfx)" for asn
  proof -
    have a: "asn \<notin> fst ` set ev"
    proof
      assume "asn \<in> fst ` set ev"
      then obtain s where "(asn, s) \<in> set ev" by auto
      with inv obtain pfxs pfx where "(asn, pfxs) \<in> set asn_dict" "pfx \<in> set pfxs" "\<not> is_ipv6 pfx"
        by blast
      with h show False by blast
    qed
    have "fst ` set (map (\<lambda>(asn, pfxs). (asn, grex pfxs)) ev) = fst ` set ev"
      by force
    with a show ?thesis unfolding c2 by simp
  qed
  from c1 c2 c3 show ?thesis by blast
qed

text \<open>
  AS 64500 originates 203.0.113.0/24, AS 64501 only 2001:db8::/32; the synthesizer is
  instantiated with string concatenation.
\<close>

theorem ipv6_only_asn_absent_witness:
  "build_asn_to_even_prefixes
     [(64500, [Cidr4 3405803776 24]), (64501, [Cidr6 42540766411282592856903984951653826560 32])]
     = Inr [(64500, [''203.0.113.''])]
   \<and> build_asn_to_regex concat
     [(64500, [Cidr4 3405803776 24]), (64501, [Cidr6 42540766411282592856903984951653826560 32])]
     = Inr [(64500, ''203.0.113.'')]
   \<and> 64501 \<notin> fst ` set [(64500 :: nat, [''203.0.113.''])]"
proof -
  let ?D = "[(64500 :: nat, [Cidr4 3405803776 24]),
             (64501, [Cidr6 42540766411282592856903984951653826560 32])]"
  note t = ipv6_only_asn_absent[OF even_ex, of concat]
  from t have "build_asn_to_regex concat ?D
      = Inr (map (\<lambda>(asn, pfxs). (asn, concat pfxs)) [(64500, [''203.0.113.''])])"
    by (rule conjunct2[THEN conjunct1])
  then have r: "build_asn_to_regex concat ?D = Inr [(64500, ''203.0.113.'')]" by simp
  from t have "(\<forall>(a, pfxs) \<in> set ?D. a = (64501 :: nat) \<longrightarrow> (\<forall>pfx \<in> set pfxs. is_ipv6 pfx))
      \<longrightarrow> 64501 \<notin> fst ` set [(64500 :: nat, [''203.0.113.''])]
        \<and> (\<forall>rm. build_asn_to_regex concat ?D = Inr rm \<longrightarrow> 64501 \<notin> fst ` set rm)"
    by (rule conjunct2[THEN conjunct2, THEN spec])
  then have "64501 \<notin> fst ` set [(64500 :: nat, [''203.0.113.''])]" by simp
  with even_ex r show ?thesis by (intro conjI)
qed

section \<open>The claim about \<^verbatim>\<open>build_filename\<close>\<close>

lemma last_even_hour_eq: "last_even_hour now = Inr (now\<lparr>hour := hour now - hour now mod 2\<rparr>)"
proof (cases "hour now mod 2 = 0")
  case True
  then show ?thesis by (simp add: last_even_hour.simps[of now])
next
  case False
  then have pos: "0 < hour now" by (cases "hour now") auto
  let ?t = "now\<lparr>hour := hour now - 1\<rparr>"
  have s: "sub_hour now = Inr ?t" using pos by (simp add: sub_hour_def)
  have ev: "hour ?t mod 2 = 0" using False pos by simp presburger
  have "last_even_hour ?t = Inr ?t" by (subst last_even_hour.simps) (use ev in simp)
  moreover have "hour now mod 2 = 1" using False by presburger
  ultimately show ?thesis using False s by (simp add: last_even_hour.simps[of now])
qed

lemma strftime_rib_url:
  "strftime ''https://routeviews.org/bgpdata/%Y.%m/RIBS/rib.%Y%m%d.%H00.bz2'' t =
     ''https://routeviews.org/bgpdata/'' @ zfill 4 (year t) @ ''.'' @ zfill 2 (month t)
     @ ''/RIBS/rib.'' @ zfill 4 (year t) @ zfill 2 (month t) @ zfill 2 (day t)
     @ ''.'' @ zfill 2 (hour t) @ ''00.bz2''"
  by (simp add: directive_def)

lemma utc_now_ex:
  "utc_now \<lparr>year = 2026, month = 11, day = 4, hour = 17, minute = 5, second = 9, microsecond = 3\<rparr>"
  by (simp add: utc_now_def days_in_month_def)

text \<open>
  Claim C8. For every current UTC time, \<^verbatim>\<open>build_filename\<close> returns the URL
  \<^verbatim>\<open>https://routeviews.org/bgpdata/%Y.%m/RIBS/rib.%Y%m%d.%H00.bz2\<close> for the date of that
  time and the hour \<open>h\<close> which is even, is the current hour when that is even and the
  hour before otherwise. (An odd hour is at least 1, so the loop runs at most once and
  never leaves the day.)
\<close>

theorem build_filename_last_even_hour:
  assumes "utc_now now"
  shows "build_filename now =
           Inr (''https://routeviews.org/bgpdata/'' @ zfill 4 (year now) @ ''.'' @ zfill 2 (month now)
                @ ''/RIBS/rib.'' @ zfill 4 (year now) @ zfill 2 (month now) @ zfill 2 (day now)
                @ ''.'' @ zfill 2 (hour now - hour now mod 2) @ ''00.bz2'')
       \<and> (hour now - hour now mod 2) mod 2 = 0
       \<and> hour now - hour now mod 2 < 24
       \<and> (hour now mod 2 = 0 \<longrightarrow> hour now - hour now mod 2 = hour now)
       \<and> (hour now mod 2 \<noteq> 0 \<longrightarrow> hour now - hour now mod 2 = hour now - 1)"
proof (intro conjI impI)
  show "build_filename now =
           Inr (''https://routeviews.org/bgpdata/'' @ zfill 4 (year now) @ ''.'' @ zfill 2 (month now)
                @ ''/RIBS/rib.'' @ zfill 4 (year now) @ zfill 2 (month now) @ zfill 2 (day now)
                @ ''.'' @ zfill 2 (hour now - hour now mod 2) @ ''00.bz2'')"
    unfolding build_filename_def last_even_hour_eq sum.case strftime_rib_url by simp
  show "(hour now - hour now mod 2) mod 2 = 0" by presburger
  show "hour now - hour now mod 2 < 24" using assms by (simp add: utc_now_def less_imp_diff_less)
next
  assume "hour now mod 2 = 0"
  then show "hour now - hour now mod 2 = hour now" by simp
next
  assume "hour now mod 2 \<noteq> 0"
  then show "hour now - hour now mod 2 = hour now - 1" by presburger
qed

text \<open>At 2026-11-04 17:05:09 UTC the file is that of 16:00.\<close>

theorem build_filename_last_even_hour_witness:
  "utc_now \<lparr>year = 2026, month = 11, day = 4, hour = 17, minute = 5, second = 9, microsecond = 3\<rparr>
   \<and> build_filename \<lparr>year = 2026, month = 11, day = 4, hour = 17, minute = 5, second = 9,
        microsecond = 3\<rparr>
       = Inr ''https://routeviews.org/bgpdata/2026.11/RIBS/rib.20261104.1600.bz2''"
proof -
  from build_filename_last_even_hour[OF utc_now_ex]
  have "build_filename \<lparr>year = 2026, month = 11, day = 4, hour = 17, minute = 5, second = 9,
        microsecond = 3\<rparr>
       = Inr ''https://routeviews.org/bgpdata/2026.11/RIBS/rib.20261104.1600.bz2''"
    by (simp add: zfill_def str_nat.simps digit_char_def)
  with utc_now_ex show ?thesis by (rule conjI)
qed

end
